theory Spec2Isabelle
  imports Main "HOL-Library.Word"
begin

section \<open>Class-based reference counting: \<^verbatim>\<open>include/linux/refcount.h\<close>\<close>

text \<open>
  The header keeps, for one tracked object, a global counter (\<^verbatim>\<open>struct refcount_t\<close>) and a
  linked list of per-key counters (\<^verbatim>\<open>struct refcount_class_t\<close>), each pointing back to its
  global counter. Every operation is an \<^verbatim>\<open>inline\<close> function over pointers; the model passes
  an explicit heap, and a pointer is an address of that heap.
\<close>

subsection \<open>Counters\<close>

text \<open>
  \<^verbatim>\<open>atomic_t\<close> is the kernel's \<^verbatim>\<open>struct { int counter; }\<close>: a 32-bit two's-complement value.
  \<^verbatim>\<open>atomic_inc\<close>, \<^verbatim>\<open>atomic_dec\<close> and \<^verbatim>\<open>atomic_add\<close> wrap around; \<^verbatim>\<open>atomic_read\<close> returns the
  value as a signed \<^verbatim>\<open>int\<close>. The header assumes the tracked object is locked by the caller,
  so the operations are modelled one after the other, not interleaved.
\<close>

type_synonym atomic_t = "32 word"

definition atomic_read :: "atomic_t \<Rightarrow> int" where
  "atomic_read v = sint v"

definition atomic_inc :: "atomic_t \<Rightarrow> atomic_t" where
  "atomic_inc v = v + 1"

definition atomic_dec :: "atomic_t \<Rightarrow> atomic_t" where
  "atomic_dec v = v - 1"

definition atomic_add :: "atomic_t \<Rightarrow> atomic_t \<Rightarrow> atomic_t" where
  "atomic_add i v = v + i"

definition INT_MAX :: int where
  "INT_MAX = 2147483647"

definition INT_MIN :: int where
  "INT_MIN = - 2147483648"

subsection \<open>Keys\<close>

text \<open>
  A key argument is a \<^verbatim>\<open>char *\<close>: the list holds the bytes at the pointer, and the byte after
  the last one is the terminating NUL (so is, for C, any byte after an embedded NUL).
  \<open>cstr\<close> is the string C sees. \<open>strncpy\<close> and \<open>strncmp\<close> are the kernel's loops of
  \<^verbatim>\<open>lib/string.c\<close>; \<open>strncpy\<close> returns the \<open>count\<close> bytes it writes to the destination.
\<close>

definition REFCOUNT_KEY_MAX :: nat where
  "REFCOUNT_KEY_MAX = 20"

definition NUL :: char where
  "NUL = CHR 0x00"

fun peek :: "string \<Rightarrow> char" where
  "peek [] = NUL"
| "peek (c # cs) = c"

definition cstr :: "string \<Rightarrow> string" where
  "cstr s = takeWhile (\<lambda>c. c \<noteq> NUL) s"

fun strncpy :: "string \<Rightarrow> nat \<Rightarrow> string" where
  "strncpy src 0 = []"
| "strncpy src (Suc count) =
     (if peek src \<noteq> NUL then peek src # strncpy (tl src) count
      else NUL # strncpy src count)"

fun strncmp :: "string \<Rightarrow> string \<Rightarrow> nat \<Rightarrow> int" where
  "strncmp cs ct 0 = 0"
| "strncmp cs ct (Suc count) =
     (let c1 = peek cs; c2 = peek ct in
      if c1 \<noteq> c2 then (if (of_char c1 :: nat) < of_char c2 then - 1 else 1)
      else if c1 = NUL then 0
      else strncmp (tl cs) (tl ct) count)"

subsection \<open>Structures and the heap\<close>

text \<open>
  \<open>cref\<close> is the field \<^verbatim>\<open>ref\<close> of \<^verbatim>\<open>struct refcount_class_t\<close> (the two structures cannot
  share a field name here). The \<^verbatim>\<open>hlist\<close> of a \<^verbatim>\<open>refcount_t\<close> is the list of the addresses of
  its classes, head first; \<^verbatim>\<open>class_node\<close> is that linkage. \<open>action\<close> is never read.
\<close>

type_synonym addr = nat

record refcount_class_t =
  key :: string
  cref :: atomic_t
  action :: "addr option"
  global :: addr

record refcount_t =
  ref :: atomic_t
  table :: "addr list"

text \<open>
  The heap: the allocated objects of each type, the next address \<^verbatim>\<open>kzalloc\<close> hands out, and
  the kernel log. An entry of \<open>klog\<close> is the text of one call of \<^verbatim>\<open>refcount_warn\<close> (one
  \<^verbatim>\<open>printk\<close>, followed by one \<^verbatim>\<open>__WARN\<close>). \<^verbatim>\<open>kzalloc\<close> never returns \<^verbatim>\<open>NULL\<close> here.
\<close>

record heap =
  rcs :: "addr \<rightharpoonup> refcount_t"
  classes :: "addr \<rightharpoonup> refcount_class_t"
  brk :: addr
  klog :: "string list"

text \<open>
  \<open>Fault\<close>: a pointer that is not an allocated object of its type is dereferenced.
  \<open>BUG\<close>: \<^verbatim>\<open>BUG_ON\<close> fired. Neither returns to the caller.
\<close>

datatype error = Fault | BUG

definition empty_heap :: heap where
  "empty_heap = \<lparr>rcs = Map.empty, classes = Map.empty, brk = 0, klog = []\<rparr>"

definition kzalloc :: "heap \<Rightarrow> addr \<times> heap" where
  "kzalloc h = (brk h, h\<lparr>brk := Suc (brk h)\<rparr>)"

definition rc_atomic :: "(atomic_t \<Rightarrow> atomic_t) \<Rightarrow> addr \<Rightarrow> heap \<Rightarrow> error + heap" where
  "rc_atomic f rc h =
     (case rcs h rc of
        None \<Rightarrow> Inl Fault
      | Some r \<Rightarrow> Inr (h\<lparr>rcs := (rcs h)(rc \<mapsto> r\<lparr>ref := f (ref r)\<rparr>)\<rparr>))"

definition class_atomic :: "(atomic_t \<Rightarrow> atomic_t) \<Rightarrow> addr \<Rightarrow> heap \<Rightarrow> error + heap" where
  "class_atomic f rcc h =
     (case classes h rcc of
        None \<Rightarrow> Inl Fault
      | Some c \<Rightarrow> Inr (h\<lparr>classes := (classes h)(rcc \<mapsto> c\<lparr>cref := f (cref c)\<rparr>)\<rparr>))"

subsection \<open>The operations\<close>

text \<open>
  \<^verbatim>\<open>refcount_warn\<close> is given the pointer \<^verbatim>\<open>rcc->key\<close>, into the structure, and \<^verbatim>\<open>printk\<close>'s
  \<^verbatim>\<open>%s\<close> prints from there to the first NUL. \<^verbatim>\<open>strncpy\<close> leaves no NUL in \<^verbatim>\<open>key[]\<close> for a key
  of 20 characters or more, so the bytes at the pointer are the buffer and then the fields
  that follow it in \<^verbatim>\<open>struct refcount_class_t\<close>, with no padding between them: \<^verbatim>\<open>ref\<close> (four
  bytes, the low one first, as on x86), \<^verbatim>\<open>action\<close> and \<^verbatim>\<open>global\<close>. \<^verbatim>\<open>NULL\<close> is eight zero bytes; the
  bytes of another pointer are taken to be those of the number after its address, so that
  no address is \<^verbatim>\<open>NULL\<close>. \<^verbatim>\<open>action\<close> is \<^verbatim>\<open>NULL\<close> in every class the header builds (\<^verbatim>\<open>kzalloc\<close> zeroes it
  and nothing writes it), so the text ends there at the latest; memory past the structure is
  not modelled.
\<close>

definition word_byte :: "'a::len word \<Rightarrow> nat \<Rightarrow> char" where
  "word_byte v i =
     Char (bit v (8 * i)) (bit v (8 * i + 1)) (bit v (8 * i + 2)) (bit v (8 * i + 3))
          (bit v (8 * i + 4)) (bit v (8 * i + 5)) (bit v (8 * i + 6)) (bit v (8 * i + 7))"

definition atomic_bytes :: "atomic_t \<Rightarrow> string" where
  "atomic_bytes v = map (word_byte v) [0, 1, 2, 3]"

definition pointer_word :: "addr option \<Rightarrow> 64 word" where
  "pointer_word p = (case p of None \<Rightarrow> 0 | Some a \<Rightarrow> 1 + word_of_nat a)"

definition pointer_bytes :: "addr option \<Rightarrow> string" where
  "pointer_bytes p = map (word_byte (pointer_word p)) [0, 1, 2, 3, 4, 5, 6, 7]"

definition bytes_at_key :: "refcount_class_t \<Rightarrow> string" where
  "bytes_at_key c =
     key c @ atomic_bytes (cref c) @ pointer_bytes (action c) @ pointer_bytes (Some (global c))"

definition warning_text :: "string \<Rightarrow> string" where
  "warning_text s = ''BUG: refcount imbalance on key '' @ s @ '' !''"

definition refcount_warn :: "string \<Rightarrow> heap \<Rightarrow> heap" where
  "refcount_warn k h = h\<lparr>klog := klog h @ [warning_text (cstr k)]\<rparr>"

text \<open>The text \<^verbatim>\<open>refcount_warn(rcc->key)\<close> logs for a class \<open>c\<close>.\<close>

definition diagnostic :: "refcount_class_t \<Rightarrow> string" where
  "diagnostic c = warning_text (cstr (bytes_at_key c))"

definition refcount_get :: "heap \<Rightarrow> addr \<times> heap" where
  "refcount_get h =
     (let (rc, h1) = kzalloc h in
      (rc, h1\<lparr>rcs := (rcs h1)(rc \<mapsto> \<lparr>ref = 0, table = []\<rparr>)\<rparr>))"

definition refcount_class_init :: "addr \<Rightarrow> string \<Rightarrow> heap \<Rightarrow> addr \<times> heap" where
  "refcount_class_init parent k h =
     (let (rcc, h1) = kzalloc h in
      (rcc, h1\<lparr>classes := (classes h1)(rcc \<mapsto>
              \<lparr>key = strncpy k REFCOUNT_KEY_MAX, cref = 0, action = None, global = parent\<rparr>)\<rparr>))"

text \<open>The loop \<^verbatim>\<open>hlist_for_each_entry\<close> of \<^verbatim>\<open>refcount_class_get\<close>, over the rest of the list.\<close>

fun class_scan :: "heap \<Rightarrow> addr list \<Rightarrow> string \<Rightarrow> error + addr option" where
  "class_scan h [] k = Inr None"
| "class_scan h (rcc # rest) k =
     (case classes h rcc of
        None \<Rightarrow> Inl Fault
      | Some c \<Rightarrow>
          if strncmp (key c) k REFCOUNT_KEY_MAX = 0 then Inr (Some rcc)
          else class_scan h rest k)"

definition refcount_class_get :: "addr \<Rightarrow> string \<Rightarrow> heap \<Rightarrow> error + addr \<times> heap" where
  "refcount_class_get rc k h =
     (case rcs h rc of
        None \<Rightarrow> Inl Fault
      | Some r \<Rightarrow>
          (case class_scan h (table r) k of
             Inl e \<Rightarrow> Inl e
           | Inr (Some rcc) \<Rightarrow> Inr (rcc, h)
           | Inr None \<Rightarrow>
               (let (rcc, h1) = refcount_class_init rc k h in
                Inr (rcc, h1\<lparr>rcs := (rcs h1)(rc \<mapsto> r\<lparr>table := rcc # table r\<rparr>)\<rparr>))))"

definition refcount_destroy :: "addr \<Rightarrow> heap \<Rightarrow> error + heap" where
  "refcount_destroy rc h =
     (case rcs h rc of
        None \<Rightarrow> Inl Fault
      | Some r \<Rightarrow>
          if \<exists>rcc \<in> set (table r). classes h rcc = None then Inl Fault
          else Inr (h\<lparr>classes := (\<lambda>a. if a \<in> set (table r) then None else classes h a),
                      rcs := (rcs h)(rc := None)\<rparr>))"

definition refcount_read :: "addr \<Rightarrow> heap \<Rightarrow> error + int" where
  "refcount_read rc h =
     (case rcs h rc of None \<Rightarrow> Inl Fault | Some r \<Rightarrow> Inr (atomic_read (ref r)))"

definition refcount_class_read :: "addr \<Rightarrow> heap \<Rightarrow> error + int" where
  "refcount_class_read rcc h =
     (case classes h rcc of None \<Rightarrow> Inl Fault | Some c \<Rightarrow> Inr (atomic_read (cref c)))"

definition refcount_inc :: "addr \<Rightarrow> heap \<Rightarrow> error + heap" where
  "refcount_inc rcc h =
     (case class_atomic atomic_inc rcc h of
        Inl e \<Rightarrow> Inl e
      | Inr h1 \<Rightarrow>
          (case classes h1 rcc of
             None \<Rightarrow> Inl Fault
           | Some c \<Rightarrow> rc_atomic atomic_inc (global c) h1))"

definition refcount_add :: "atomic_t \<Rightarrow> addr \<Rightarrow> heap \<Rightarrow> error + heap" where
  "refcount_add source dest h =
     (case class_atomic (atomic_add source) dest h of
        Inl e \<Rightarrow> Inl e
      | Inr h1 \<Rightarrow>
          (case classes h1 dest of
             None \<Rightarrow> Inl Fault
           | Some c \<Rightarrow> rc_atomic (atomic_add source) (global c) h1))"

definition refcount_dec :: "addr \<Rightarrow> heap \<Rightarrow> error + heap" where
  "refcount_dec rcc h =
     (case class_atomic atomic_dec rcc h of
        Inl e \<Rightarrow> Inl e
      | Inr h1 \<Rightarrow>
          (case refcount_class_read rcc h1 of
             Inl e \<Rightarrow> Inl e
           | Inr n \<Rightarrow>
               (case classes h1 rcc of
                  None \<Rightarrow> Inl Fault
                | Some c \<Rightarrow>
                    if n < 0 then Inr (refcount_warn (bytes_at_key c) h1)
                    else
                      (case refcount_read (global c) h1 of
                         Inl e \<Rightarrow> Inl e
                       | Inr g \<Rightarrow>
                           if g \<le> 0 then Inl BUG
                           else rc_atomic atomic_dec (global c) h1))))"

definition refcount_dec_and_test :: "addr \<Rightarrow> heap \<Rightarrow> error + bool \<times> heap" where
  "refcount_dec_and_test rcc h =
     (case refcount_dec rcc h of
        Inl e \<Rightarrow> Inl e
      | Inr h1 \<Rightarrow>
          (case classes h1 rcc of
             None \<Rightarrow> Inl Fault
           | Some c \<Rightarrow>
               (case refcount_read (global c) h1 of
                  Inl e \<Rightarrow> Inl e
                | Inr g \<Rightarrow> Inr (g = 0, h1))))"

subsection \<open>Sequences of calls\<close>

text \<open>
  A caller's sequence of counting calls on class pointers. A call that faults or hits
  \<^verbatim>\<open>BUG_ON\<close> ends the run: nothing after it is executed.
\<close>

datatype op = Inc addr | Add atomic_t addr | Dec addr | DecAndTest addr

fun target :: "op \<Rightarrow> addr" where
  "target (Inc rcc) = rcc"
| "target (Add n rcc) = rcc"
| "target (Dec rcc) = rcc"
| "target (DecAndTest rcc) = rcc"

fun exec :: "op \<Rightarrow> heap \<Rightarrow> error + heap" where
  "exec (Inc rcc) h = refcount_inc rcc h"
| "exec (Add n rcc) h = refcount_add n rcc h"
| "exec (Dec rcc) h = refcount_dec rcc h"
| "exec (DecAndTest rcc) h =
     (case refcount_dec_and_test rcc h of Inl e \<Rightarrow> Inl e | Inr (b, h1) \<Rightarrow> Inr h1)"

fun run_ops :: "op list \<Rightarrow> heap \<Rightarrow> error + heap" where
  "run_ops [] h = Inr h"
| "run_ops (x # xs) h = (case exec x h of Inl e \<Rightarrow> Inl e | Inr h1 \<Rightarrow> run_ops xs h1)"

text \<open>The delta a call asks for, and the net sum of a sequence.\<close>

fun delta :: "op \<Rightarrow> int" where
  "delta (Inc rcc) = 1"
| "delta (Add n rcc) = sint n"
| "delta (Dec rcc) = - 1"
| "delta (DecAndTest rcc) = - 1"

definition net_delta :: "op list \<Rightarrow> int" where
  "net_delta xs = sum_list (map delta xs)"

text \<open>The owner of a class, and the value of the owner's global counter.\<close>

definition owner :: "heap \<Rightarrow> addr \<Rightarrow> addr option" where
  "owner h rcc = map_option global (classes h rcc)"

definition owner_ref :: "heap \<Rightarrow> addr \<Rightarrow> atomic_t option" where
  "owner_ref h rcc =
     (case classes h rcc of
        None \<Rightarrow> None
      | Some c \<Rightarrow> map_option ref (rcs h (global c)))"

text \<open>
  \<open>no_imbalance h xs\<close>: along the run of \<open>xs\<close> from \<open>h\<close>, for as long as it runs, the
  class a call works on has a count that is not negative after the call.
\<close>

definition class_nonneg :: "heap \<Rightarrow> addr \<Rightarrow> bool" where
  "class_nonneg h rcc =
     (case classes h rcc of None \<Rightarrow> False | Some c \<Rightarrow> 0 \<le> atomic_read (cref c))"

fun no_imbalance :: "heap \<Rightarrow> op list \<Rightarrow> bool" where
  "no_imbalance h [] = True"
| "no_imbalance h (x # xs) =
     (case exec x h of
        Inl e \<Rightarrow> True
      | Inr h1 \<Rightarrow> class_nonneg h1 (target x) \<and> no_imbalance h1 xs)"

text \<open>
  \<open>fits h xs\<close>: along the run of \<open>xs\<close> from \<open>h\<close>, every \<^verbatim>\<open>refcount_add\<close> has a delta that is
  not negative, and no \<^verbatim>\<open>refcount_inc\<close> or \<^verbatim>\<open>refcount_add\<close> takes the owner's global counter
  beyond \<^verbatim>\<open>INT_MAX\<close>.
\<close>

fun step_fits :: "heap \<Rightarrow> op \<Rightarrow> bool" where
  "step_fits h (Inc rcc) =
     (case owner_ref h rcc of None \<Rightarrow> True | Some g \<Rightarrow> atomic_read g + 1 \<le> INT_MAX)"
| "step_fits h (Add n rcc) =
     (0 \<le> sint n \<and>
      (case owner_ref h rcc of None \<Rightarrow> True | Some g \<Rightarrow> atomic_read g + sint n \<le> INT_MAX))"
| "step_fits h (Dec rcc) = True"
| "step_fits h (DecAndTest rcc) = True"

fun fits :: "heap \<Rightarrow> op list \<Rightarrow> bool" where
  "fits h [] = True"
| "fits h (x # xs) =
     (step_fits h x \<and> (case exec x h of Inl e \<Rightarrow> True | Inr h1 \<Rightarrow> fits h1 xs))"

text \<open>
  \<open>frame rcc h h'\<close>: from \<open>h\<close> to \<open>h'\<close> nothing was allocated or freed, every collection
  of classes is the same list, every class other than \<open>rcc\<close> is untouched, \<open>rcc\<close> keeps its
  key, its action and its owner, and every \<^verbatim>\<open>refcount_t\<close> other than the owner of \<open>rcc\<close> is
  untouched.
\<close>

definition frame :: "addr \<Rightarrow> heap \<Rightarrow> heap \<Rightarrow> bool" where
  "frame rcc h h' \<longleftrightarrow>
     brk h' = brk h \<and>
     (\<forall>rc. map_option table (rcs h' rc) = map_option table (rcs h rc)) \<and>
     (\<forall>a. a \<noteq> rcc \<longrightarrow> classes h' a = classes h a) \<and>
     map_option key (classes h' rcc) = map_option key (classes h rcc) \<and>
     map_option action (classes h' rcc) = map_option action (classes h rcc) \<and>
     map_option global (classes h' rcc) = map_option global (classes h rcc) \<and>
     classes h' rcc \<noteq> None \<and>
     (\<forall>rc. owner h rcc \<noteq> Some rc \<longrightarrow> rcs h' rc = rcs h rc)"

text \<open>
  \<open>wf_table h rc\<close>: \<open>rc\<close> is allocated, and every entry of its collection is an allocated
  class, at an address \<^verbatim>\<open>kzalloc\<close> has handed out already, whose owner is \<open>rc\<close>. It holds for
  what \<^verbatim>\<open>refcount_get\<close> returns, and every operation but \<^verbatim>\<open>refcount_destroy\<close> keeps it.
\<close>

definition wf_table :: "heap \<Rightarrow> addr \<Rightarrow> bool" where
  "wf_table h rc =
     (case rcs h rc of
        None \<Rightarrow> False
      | Some r \<Rightarrow> list_all (\<lambda>a. a < brk h \<and> owner h a = Some rc) (table r))"

text \<open>
  \<open>key_prefix k\<close>: the first 20 characters of the key \<open>k\<close>. \<open>stored_key h rcc\<close>: the bytes of
  \<^verbatim>\<open>rcc->key\<close>.
  \<open>registered h rc k rcc\<close>: \<open>rcc\<close> is in the collection of \<open>rc\<close>, its owner is \<open>rc\<close>, and its key
  buffer holds what \<^verbatim>\<open>strncpy\<close> stores for \<open>k\<close>.
  \<open>wf_keys h rc\<close>: the collection of \<open>rc\<close> is well-formed, no two of its classes have the same
  key buffer, and every key buffer is one that \<^verbatim>\<open>strncpy\<close> writes: 20 bytes, the characters of a
  string and then NUL to the end. It holds for what \<^verbatim>\<open>refcount_get\<close> returns, and
  \<^verbatim>\<open>refcount_class_get\<close> on \<open>rc\<close> and the counting calls keep it.
\<close>

definition key_prefix :: "string \<Rightarrow> string" where
  "key_prefix k = take REFCOUNT_KEY_MAX (cstr k)"

definition stored_key :: "heap \<Rightarrow> addr \<Rightarrow> string option" where
  "stored_key h rcc = map_option key (classes h rcc)"

definition registered :: "heap \<Rightarrow> addr \<Rightarrow> string \<Rightarrow> addr \<Rightarrow> bool" where
  "registered h rc k rcc =
     (case rcs h rc of
        None \<Rightarrow> False
      | Some r \<Rightarrow>
          rcc \<in> set (table r) \<and> owner h rcc = Some rc \<and>
          stored_key h rcc = Some (strncpy k REFCOUNT_KEY_MAX))"

definition wf_keys :: "heap \<Rightarrow> addr \<Rightarrow> bool" where
  "wf_keys h rc =
     (wf_table h rc \<and>
      (case rcs h rc of
         None \<Rightarrow> False
       | Some r \<Rightarrow>
           distinct (map (stored_key h) (table r)) \<and>
           list_all (\<lambda>a. case stored_key h a of
                            None \<Rightarrow> False
                          | Some b \<Rightarrow> b = strncpy b REFCOUNT_KEY_MAX) (table r)))"

text \<open>
  A caller's sequence of lookups on one \<^verbatim>\<open>refcount_t\<close> and of counting calls. \<open>calls\<close> returns
  the classes that the lookups returned, in order, and the last heap; \<open>lookup_keys\<close> are the
  keys looked up, in order. \<open>counting_returns rc cs h\<close>: along the run of \<open>cs\<close> from \<open>h\<close>, every
  counting call returns.
\<close>

datatype call = Lookup string | Count op

fun calls :: "addr \<Rightarrow> call list \<Rightarrow> heap \<Rightarrow> error + addr list \<times> heap" where
  "calls rc [] h = Inr ([], h)"
| "calls rc (Lookup k # cs) h =
     (case refcount_class_get rc k h of
        Inl e \<Rightarrow> Inl e
      | Inr (rcc, h1) \<Rightarrow>
          (case calls rc cs h1 of
             Inl e \<Rightarrow> Inl e
           | Inr (rccs, h2) \<Rightarrow> Inr (rcc # rccs, h2)))"
| "calls rc (Count x # cs) h =
     (case exec x h of Inl e \<Rightarrow> Inl e | Inr h1 \<Rightarrow> calls rc cs h1)"

fun lookup_keys :: "call list \<Rightarrow> string list" where
  "lookup_keys [] = []"
| "lookup_keys (Lookup k # cs) = k # lookup_keys cs"
| "lookup_keys (Count x # cs) = lookup_keys cs"

fun counting_returns :: "addr \<Rightarrow> call list \<Rightarrow> heap \<Rightarrow> bool" where
  "counting_returns rc [] h = True"
| "counting_returns rc (Lookup k # cs) h =
     (case refcount_class_get rc k h of
        Inl e \<Rightarrow> True
      | Inr (rcc, h1) \<Rightarrow> counting_returns rc cs h1)"
| "counting_returns rc (Count x # cs) h =
     (case exec x h of Inl e \<Rightarrow> False | Inr h1 \<Rightarrow> counting_returns rc cs h1)"

text \<open>
  \<open>class_count h rcc\<close>: the value of the class counter. \<open>balanced h rc\<close>: the collection of \<open>rc\<close>
  is well-formed, no class is in it twice, no class counter reads negative, and the global
  counter reads the sum of the class counters. It holds for what \<^verbatim>\<open>refcount_get\<close> returns,
  \<^verbatim>\<open>refcount_class_get\<close> on \<open>rc\<close> keeps it, and so does a counting call on a class of \<open>rc\<close>
  that causes no overflow and no imbalance.
\<close>

definition class_count :: "heap \<Rightarrow> addr \<Rightarrow> int" where
  "class_count h rcc = (case classes h rcc of None \<Rightarrow> 0 | Some c \<Rightarrow> atomic_read (cref c))"

definition balanced :: "heap \<Rightarrow> addr \<Rightarrow> bool" where
  "balanced h rc =
     (wf_table h rc \<and>
      (case rcs h rc of
         None \<Rightarrow> False
       | Some r \<Rightarrow>
           distinct (table r) \<and>
           list_all (\<lambda>a. 0 \<le> class_count h a) (table r) \<and>
           atomic_read (ref r) = sum_list (map (class_count h) (table r))))"

text \<open>
  Two keys of 21 characters that differ in the last one only, and the heap after
  \<^verbatim>\<open>refcount_class_get(rc, key_X)\<close> on \<open>heap_0\<close>.
\<close>

definition key_X :: string where
  "key_X = ''aaaaaaaaaaaaaaaaaaaaX''"

definition key_Y :: string where
  "key_Y = ''aaaaaaaaaaaaaaaaaaaaY''"

definition heap_X :: heap where
  "heap_X = \<lparr>rcs = [0 \<mapsto> \<lparr>ref = 0, table = [1]\<rparr>],
              classes = [1 \<mapsto> \<lparr>key = ''aaaaaaaaaaaaaaaaaaaa'', cref = 0, action = None,
                                  global = 0\<rparr>],
              brk = 2, klog = []\<rparr>"

text \<open>
  A key of exactly 20 characters, and the class that \<^verbatim>\<open>refcount_class_get\<close> builds for it: the
  class of \<open>heap_X\<close>.
\<close>

definition key_20 :: string where
  "key_20 = ''aaaaaaaaaaaaaaaaaaaa''"

definition class_X :: refcount_class_t where
  "class_X = \<lparr>key = key_20, cref = 0, action = None, global = 0\<rparr>"

text \<open>
  Example heaps: \<open>heap_A\<close> is what \<^verbatim>\<open>refcount_get()\<close> and then
  \<^verbatim>\<open>refcount_class_get(rc, "A")\<close> build from the empty heap; \<open>heap_AB\<close> adds the class
  \<^verbatim>\<open>"B"\<close>.
\<close>

definition class_A :: refcount_class_t where
  "class_A = \<lparr>key = strncpy ''A'' REFCOUNT_KEY_MAX, cref = 0, action = None, global = 0\<rparr>"

definition class_B :: refcount_class_t where
  "class_B = \<lparr>key = strncpy ''B'' REFCOUNT_KEY_MAX, cref = 0, action = None, global = 0\<rparr>"

definition heap_0 :: heap where
  "heap_0 = snd (refcount_get empty_heap)"

definition heap_A :: heap where
  "heap_A = (case refcount_class_get 0 ''A'' heap_0 of Inr (rcc, h) \<Rightarrow> h | Inl e \<Rightarrow> heap_0)"

definition heap_AB :: heap where
  "heap_AB = (case refcount_class_get 0 ''B'' heap_A of Inr (rcc, h) \<Rightarrow> h | Inl e \<Rightarrow> heap_A)"

text \<open>
  Example runs: four calls on the class \<^verbatim>\<open>"A"\<close> of \<open>heap_A\<close>, five calls on the two classes of
  \<open>heap_AB\<close>, and the heaps they end in.
\<close>

definition ops_A :: "op list" where
  "ops_A = [Inc 1, Add 2 1, Dec 1, DecAndTest 1]"

definition heap_A1 :: heap where
  "heap_A1 = \<lparr>rcs = [0 \<mapsto> \<lparr>ref = 1, table = [1]\<rparr>], classes = [1 \<mapsto> class_A\<lparr>cref := 1\<rparr>],
               brk = 2, klog = []\<rparr>"

definition ops_AB :: "op list" where
  "ops_AB = [Inc 1, Inc 2, Inc 1, Dec 1, DecAndTest 2]"

definition heap_AB1 :: heap where
  "heap_AB1 = \<lparr>rcs = [0 \<mapsto> \<lparr>ref = 1, table = [2, 1]\<rparr>],
                classes = [1 \<mapsto> class_A\<lparr>cref := 1\<rparr>, 2 \<mapsto> class_B], brk = 3, klog = []\<rparr>"

text \<open>
  A run of lookups and counting calls on \<open>heap_0\<close>: the third lookup finds the class \<^verbatim>\<open>"A"\<close>
  behind the class \<^verbatim>\<open>"B"\<close> in the list.
\<close>

definition calls_ABA :: "call list" where
  "calls_ABA = [Lookup ''A'', Lookup ''B'', Count (Inc 1), Lookup ''A'', Count (Dec 1)]"

text \<open>
  A long run: \<open>2 ^ 30\<close> increments on the class \<^verbatim>\<open>"A"\<close> of \<open>heap_AB\<close>, then \<open>2 ^ 30\<close> increments on
  its class \<^verbatim>\<open>"B"\<close>.
\<close>

definition ops_wrap :: "op list" where
  "ops_wrap = replicate 1073741824 (Inc 1) @ replicate 1073741824 (Inc 2)"

section \<open>Basic facts\<close>

subsection \<open>32-bit arithmetic\<close>

lemma sint_in_range:
  assumes "- 2147483648 \<le> k" and "k \<le> 2147483647"
  shows "sint (word_of_int k :: 32 word) = k"
proof -
  have "sint (word_of_int k :: 32 word) = signed_take_bit 31 k"
    by (simp add: signed_of_int)
  also have "\<dots> = k"
    using assms by (simp add: signed_take_bit_int_eq_self)
  finally show ?thesis .
qed

lemma sint_bounds32: "- 2147483648 \<le> sint (w :: 32 word) \<and> sint w \<le> 2147483647"
  using sint_ge [of w] sint_lt [of w] by simp

lemma sint_add_in_range:
  fixes w n :: "32 word"
  assumes "- 2147483648 \<le> sint w + sint n" and "sint w + sint n \<le> 2147483647"
  shows "sint (w + n) = sint w + sint n"
proof -
  have "w + n = word_of_int (sint w + sint n)" by simp
  then show ?thesis using sint_in_range [OF assms] by simp
qed

lemma sint_dec:
  fixes w :: "32 word"
  assumes "- 2147483648 < sint w"
  shows "sint (w - 1) = sint w - 1"
proof -
  have "w - 1 = word_of_int (sint w - 1)" by simp
  moreover have "sint (word_of_int (sint w - 1) :: 32 word) = sint w - 1"
    using assms sint_bounds32 [of w] by (intro sint_in_range) auto
  ultimately show ?thesis by simp
qed

subsection \<open>The counting operations, case by case\<close>

lemmas op_defs = refcount_inc_def refcount_add_def refcount_dec_def refcount_dec_and_test_def
  class_atomic_def rc_atomic_def refcount_read_def refcount_class_read_def refcount_warn_def
  diagnostic_def [symmetric]

lemma atomic_inc_add: "atomic_inc = atomic_add 1"
  by (rule ext) (simp add: atomic_inc_def atomic_add_def)

lemma refcount_inc_add: "refcount_inc rcc h = refcount_add 1 rcc h"
  unfolding refcount_inc_def refcount_add_def atomic_inc_add ..

lemma refcount_add_eq:
  assumes "classes h rcc = Some c" and "rcs h (global c) = Some r"
  shows "refcount_add n rcc h =
           Inr (h\<lparr>classes := (classes h)(rcc \<mapsto> c\<lparr>cref := atomic_add n (cref c)\<rparr>),
                   rcs := (rcs h)(global c \<mapsto> r\<lparr>ref := atomic_add n (ref r)\<rparr>)\<rparr>)"
  using assms by (simp add: op_defs)

lemma refcount_dec_imbalance:
  assumes "classes h rcc = Some c" and "atomic_read (atomic_dec (cref c)) < 0"
  shows "refcount_dec rcc h =
           Inr (h\<lparr>classes := (classes h)(rcc \<mapsto> c\<lparr>cref := atomic_dec (cref c)\<rparr>),
                   klog := klog h @ [diagnostic (c\<lparr>cref := atomic_dec (cref c)\<rparr>)]\<rparr>)"
  using assms by (simp add: op_defs)

lemma refcount_dec_bug:
  assumes "classes h rcc = Some c" and "rcs h (global c) = Some r"
    and "0 \<le> atomic_read (atomic_dec (cref c))" and "atomic_read (ref r) \<le> 0"
  shows "refcount_dec rcc h = Inl BUG"
  using assms by (simp add: op_defs)

lemma refcount_dec_ok:
  assumes "classes h rcc = Some c" and "rcs h (global c) = Some r"
    and "0 \<le> atomic_read (atomic_dec (cref c))" and "0 < atomic_read (ref r)"
  shows "refcount_dec rcc h =
           Inr (h\<lparr>classes := (classes h)(rcc \<mapsto> c\<lparr>cref := atomic_dec (cref c)\<rparr>),
                   rcs := (rcs h)(global c \<mapsto> r\<lparr>ref := atomic_dec (ref r)\<rparr>)\<rparr>)"
  using assms by (simp add: op_defs)

lemma dec_and_test_eq:
  assumes "classes h rcc = Some c" and "rcs h (global c) = Some r"
  shows "refcount_dec_and_test rcc h =
           (case refcount_dec rcc h of
              Inl e \<Rightarrow> Inl e
            | Inr h' \<Rightarrow> Inr (refcount_read (global c) h' = Inr 0, h'))"
  using assms by (simp add: op_defs)

text \<open>What a call that returned tells about the heap it started from.\<close>

lemma refcount_add_valid:
  assumes "refcount_add n rcc h = Inr h1"
  obtains c r where "classes h rcc = Some c" "rcs h (global c) = Some r"
  using assms by (auto simp: op_defs split: option.splits)

lemma refcount_dec_cases:
  assumes "refcount_dec rcc h = Inr h1"
  obtains (imbalance) c where "classes h rcc = Some c" "atomic_read (atomic_dec (cref c)) < 0"
      "h1 = h\<lparr>classes := (classes h)(rcc \<mapsto> c\<lparr>cref := atomic_dec (cref c)\<rparr>),
              klog := klog h @ [diagnostic (c\<lparr>cref := atomic_dec (cref c)\<rparr>)]\<rparr>"
  | (ok) c r where "classes h rcc = Some c" "rcs h (global c) = Some r"
      "0 \<le> atomic_read (atomic_dec (cref c))" "0 < atomic_read (ref r)"
      "h1 = h\<lparr>classes := (classes h)(rcc \<mapsto> c\<lparr>cref := atomic_dec (cref c)\<rparr>),
              rcs := (rcs h)(global c \<mapsto> r\<lparr>ref := atomic_dec (ref r)\<rparr>)\<rparr>"
proof -
  from assms obtain c where c: "classes h rcc = Some c"
    by (auto simp: op_defs split: option.splits)
  show thesis
  proof (cases "atomic_read (atomic_dec (cref c)) < 0")
    case True
    with assms c refcount_dec_imbalance [OF c True] show ?thesis by (intro imbalance) auto
  next
    case False
    with assms c obtain r where r: "rcs h (global c) = Some r"
      by (auto simp: op_defs split: option.splits)
    from False have nn: "0 \<le> atomic_read (atomic_dec (cref c))" by simp
    show ?thesis
    proof (cases "0 < atomic_read (ref r)")
      case True
      with assms refcount_dec_ok [OF c r nn True] c r nn show ?thesis by (intro ok) auto
    next
      case False
      then have "atomic_read (ref r) \<le> 0" by simp
      from refcount_dec_bug [OF c r nn this] assms show ?thesis by simp
    qed
  qed
qed

lemma refcount_dec_and_test_dec:
  assumes "refcount_dec_and_test rcc h = Inr (b, h1)"
  shows "refcount_dec rcc h = Inr h1"
  using assms by (auto simp: refcount_dec_and_test_def split: sum.splits option.splits)

lemma frame_add:
  assumes "refcount_add n rcc h = Inr h1"
  shows "frame rcc h h1"
  using assms
proof (rule refcount_add_valid)
  fix c r
  assume c: "classes h rcc = Some c" and r: "rcs h (global c) = Some r"
  from assms refcount_add_eq [OF c r, of n] c r show ?thesis
    by (auto simp: frame_def owner_def)
qed

lemma frame_dec:
  assumes "refcount_dec rcc h = Inr h1"
  shows "frame rcc h h1"
  using assms by (cases rule: refcount_dec_cases) (auto simp: frame_def owner_def)

subsection \<open>Sequences of calls, step by step\<close>

lemma exec_cases:
  assumes "exec x h = Inr h1"
  obtains (add) a n c r where "x = Inc a \<and> n = 1 \<or> x = Add n a"
      "classes h a = Some c" "rcs h (global c) = Some r"
      "h1 = h\<lparr>classes := (classes h)(a \<mapsto> c\<lparr>cref := atomic_add n (cref c)\<rparr>),
              rcs := (rcs h)(global c \<mapsto> r\<lparr>ref := atomic_add n (ref r)\<rparr>)\<rparr>"
  | (imbalance) a c where "x = Dec a \<or> x = DecAndTest a"
      "classes h a = Some c" "atomic_read (atomic_dec (cref c)) < 0"
      "h1 = h\<lparr>classes := (classes h)(a \<mapsto> c\<lparr>cref := atomic_dec (cref c)\<rparr>),
              klog := klog h @ [diagnostic (c\<lparr>cref := atomic_dec (cref c)\<rparr>)]\<rparr>"
  | (dec) a c r where "x = Dec a \<or> x = DecAndTest a"
      "classes h a = Some c" "rcs h (global c) = Some r"
      "0 \<le> atomic_read (atomic_dec (cref c))" "0 < atomic_read (ref r)"
      "h1 = h\<lparr>classes := (classes h)(a \<mapsto> c\<lparr>cref := atomic_dec (cref c)\<rparr>),
              rcs := (rcs h)(global c \<mapsto> r\<lparr>ref := atomic_dec (ref r)\<rparr>)\<rparr>"
proof (cases x)
  case (Inc a)
  with assms have a: "refcount_add 1 a h = Inr h1" by (simp add: refcount_inc_add)
  then obtain c r where cr: "classes h a = Some c" "rcs h (global c) = Some r"
    by (rule refcount_add_valid)
  from a refcount_add_eq [OF cr, of 1]
  have "h1 = h\<lparr>classes := (classes h)(a \<mapsto> c\<lparr>cref := atomic_add 1 (cref c)\<rparr>),
               rcs := (rcs h)(global c \<mapsto> r\<lparr>ref := atomic_add 1 (ref r)\<rparr>)\<rparr>"
    by simp
  with Inc cr show ?thesis by (intro add [of a 1 c r]) simp_all
next
  case (Add n a)
  with assms have a: "refcount_add n a h = Inr h1" by simp
  then obtain c r where cr: "classes h a = Some c" "rcs h (global c) = Some r"
    by (rule refcount_add_valid)
  from a refcount_add_eq [OF cr, of n]
  have "h1 = h\<lparr>classes := (classes h)(a \<mapsto> c\<lparr>cref := atomic_add n (cref c)\<rparr>),
               rcs := (rcs h)(global c \<mapsto> r\<lparr>ref := atomic_add n (ref r)\<rparr>)\<rparr>"
    by simp
  with Add cr show ?thesis by (intro add [of a n c r]) simp_all
next
  case (Dec a)
  with assms have "refcount_dec a h = Inr h1" by simp
  then show ?thesis
  proof (cases rule: refcount_dec_cases)
    case (imbalance c)
    with Dec show ?thesis by (intro that(2) [of a c]) simp_all
  next
    case (ok c r)
    with Dec show ?thesis by (intro that(3) [of a c r]) simp_all
  qed
next
  case (DecAndTest a)
  with assms obtain b where "refcount_dec_and_test a h = Inr (b, h1)"
    by (auto split: sum.splits)
  then have "refcount_dec a h = Inr h1" by (rule refcount_dec_and_test_dec)
  then show ?thesis
  proof (cases rule: refcount_dec_cases)
    case (imbalance c)
    with DecAndTest show ?thesis by (intro that(2) [of a c]) simp_all
  next
    case (ok c r)
    with DecAndTest show ?thesis by (intro that(3) [of a c r]) simp_all
  qed
qed

lemma exec_owner:
  assumes "exec x h = Inr h1"
  shows "owner h1 b = owner h b"
  using assms by (cases rule: exec_cases) (auto simp: owner_def)

lemma exec_brk_tables:
  assumes "exec x h = Inr h1"
  shows "brk h1 = brk h \<and> map_option table (rcs h1 rc) = map_option table (rcs h rc)"
  using assms by (cases rule: exec_cases) auto

lemma exec_global_delta:
  assumes "exec x h = Inr h1" and "class_nonneg h1 (target x)"
    and "owner h (target x) = Some rc" and "rcs h rc = Some r"
  shows "\<exists>r1. rcs h1 rc = Some r1 \<and> ref r1 = ref r + word_of_int (delta x)"
  using assms(1)
proof (cases rule: exec_cases)
  case (add a n c r')
  from add(1) have "word_of_int (delta x) = n" and "target x = a" by auto
  with add(2-) assms(3,4) show ?thesis by (auto simp: owner_def atomic_add_def)
next
  case (imbalance a c)
  from imbalance(1) have "target x = a" by auto
  with imbalance(2-) assms(2) show ?thesis by (simp add: class_nonneg_def)
next
  case (dec a c r')
  from dec(1) have "delta x = - 1" and "target x = a" by auto
  with dec(2-) assms(3,4) show ?thesis by (auto simp: owner_def atomic_dec_def)
qed

lemma run_global_delta:
  assumes "run_ops xs h = Inr h'" and "no_imbalance h xs"
    and "list_all (\<lambda>x. owner h (target x) = Some rc) xs" and "rcs h rc = Some r"
  shows "\<exists>r'. rcs h' rc = Some r' \<and> ref r' = ref r + word_of_int (net_delta xs)"
  using assms
proof (induction xs arbitrary: h r)
  case Nil
  then show ?case by (simp add: net_delta_def)
next
  case (Cons x xs)
  from Cons.prems(1) obtain h1 where x: "exec x h = Inr h1" and run: "run_ops xs h1 = Inr h'"
    by (auto split: sum.splits)
  from Cons.prems(2) x have nn: "class_nonneg h1 (target x)" and bal: "no_imbalance h1 xs"
    by simp_all
  from Cons.prems(3) have own: "owner h (target x) = Some rc"
    and owns: "list_all (\<lambda>y. owner h (target y) = Some rc) xs" by simp_all
  from exec_global_delta [OF x nn own Cons.prems(4)]
  obtain r1 where r1: "rcs h1 rc = Some r1" "ref r1 = ref r + word_of_int (delta x)" by blast
  from owns have owns1: "list_all (\<lambda>y. owner h1 (target y) = Some rc) xs"
    by (simp add: exec_owner [OF x])
  from Cons.IH [OF run bal owns1 r1(1)] r1(2) show ?case
    by (auto simp: net_delta_def)
qed

lemma owner_ref_eq:
  "classes h a = Some c \<Longrightarrow> rcs h (global c) = Some r \<Longrightarrow> owner_ref h a = Some (ref r)"
  by (simp add: owner_ref_def)

lemma exec_nonneg:
  assumes "exec x h = Inr h1" and "step_fits h x"
    and "rcs h rc = Some r" and "0 \<le> atomic_read (ref r)"
  shows "\<exists>r1. rcs h1 rc = Some r1 \<and> 0 \<le> atomic_read (ref r1)"
  using assms(1)
proof (cases rule: exec_cases)
  case (add a n c r')
  show ?thesis
  proof (cases "global c = rc")
    case True
    with add assms(3) have rr: "r' = r" by simp
    from add(1) assms(2) owner_ref_eq [OF add(2,3)]
    have "0 \<le> sint n \<and> atomic_read (ref r') + sint n \<le> INT_MAX" by auto
    with assms(4) rr sint_bounds32 [of "ref r"]
    have "sint (ref r + n) = sint (ref r) + sint n"
      by (intro sint_add_in_range) (auto simp: atomic_read_def INT_MAX_def)
    with \<open>0 \<le> sint n \<and> atomic_read (ref r') + sint n \<le> INT_MAX\<close> assms(4) add True rr
    show ?thesis by (simp add: atomic_read_def atomic_add_def)
  next
    case False
    with add assms(3,4) show ?thesis by simp
  qed
next
  case (imbalance a c)
  with assms(3,4) show ?thesis by simp
next
  case (dec a c r')
  show ?thesis
  proof (cases "global c = rc")
    case True
    with dec assms(3) have rr: "r' = r" by simp
    with dec(5) have "sint (ref r - 1) = sint (ref r) - 1"
      by (intro sint_dec) (simp add: atomic_read_def)
    with dec True rr show ?thesis by (simp add: atomic_read_def atomic_dec_def)
  next
    case False
    with dec assms(3,4) show ?thesis by simp
  qed
qed

lemma run_nonneg:
  assumes "run_ops xs h = Inr h'" and "fits h xs"
    and "rcs h rc = Some r" and "0 \<le> atomic_read (ref r)"
  shows "\<exists>r'. rcs h' rc = Some r' \<and> 0 \<le> atomic_read (ref r')"
  using assms
proof (induction xs arbitrary: h r)
  case Nil
  then show ?case by simp
next
  case (Cons x xs)
  from Cons.prems(1) obtain h1 where x: "exec x h = Inr h1" and run: "run_ops xs h1 = Inr h'"
    by (auto split: sum.splits)
  from Cons.prems(2) x have sf: "step_fits h x" and f1: "fits h1 xs" by simp_all
  from exec_nonneg [OF x sf Cons.prems(3,4)]
  obtain r1 where "rcs h1 rc = Some r1" "0 \<le> atomic_read (ref r1)" by blast
  with Cons.IH [OF run f1] show ?case by blast
qed

text \<open>A run of a prefix is a run, and a prefix of a sequence that fits fits.\<close>

lemma run_ops_append:
  "run_ops (xs @ ys) h = (case run_ops xs h of Inl e \<Rightarrow> Inl e | Inr h1 \<Rightarrow> run_ops ys h1)"
  by (induction xs arbitrary: h) (auto split: sum.splits)

lemma fits_prefix: "fits h (xs @ ys) \<Longrightarrow> fits h xs"
  by (induction xs arbitrary: h) (auto split: sum.splits)

text \<open>Runs of increments on one class, and runs in two parts.\<close>

lemma run_ops_replicate_inc:
  assumes "classes h a = Some c" and "rcs h (global c) = Some r"
  shows "\<exists>h'. run_ops (replicate n (Inc a)) h = Inr h' \<and>
           classes h' = (classes h)(a \<mapsto> c\<lparr>cref := cref c + of_nat n\<rparr>) \<and>
           rcs h' = (rcs h)(global c \<mapsto> r\<lparr>ref := ref r + of_nat n\<rparr>)"
  using assms
proof (induction n arbitrary: h c r)
  case 0
  then have "(classes h)(a \<mapsto> c) = classes h" and "(rcs h)(global c \<mapsto> r) = rcs h"
    by (simp_all add: fun_upd_idem)
  then show ?case by simp
next
  case (Suc n)
  define c1 where "c1 = c\<lparr>cref := cref c + 1\<rparr>"
  define r1 where "r1 = r\<lparr>ref := ref r + 1\<rparr>"
  define h1 where "h1 = h\<lparr>classes := (classes h)(a \<mapsto> c1), rcs := (rcs h)(global c \<mapsto> r1)\<rparr>"
  have step: "refcount_inc a h = Inr h1"
    using refcount_add_eq [OF Suc.prems, of 1]
    by (simp add: refcount_inc_add atomic_add_def h1_def c1_def r1_def)
  have g: "global c1 = global c" by (simp add: c1_def)
  have c1: "classes h1 a = Some c1" by (simp add: h1_def)
  have r1: "rcs h1 (global c1) = Some r1" by (simp add: h1_def g)
  from Suc.IH [OF c1 r1] obtain h' where run: "run_ops (replicate n (Inc a)) h1 = Inr h'"
    and cl: "classes h' = (classes h1)(a \<mapsto> c1\<lparr>cref := cref c1 + of_nat n\<rparr>)"
    and rc: "rcs h' = (rcs h1)(global c1 \<mapsto> r1\<lparr>ref := ref r1 + of_nat n\<rparr>)"
    by blast
  have "classes h' = (classes h)(a \<mapsto> c\<lparr>cref := cref c + of_nat (Suc n)\<rparr>)"
    by (simp add: cl h1_def c1_def add.assoc)
  moreover have "rcs h' = (rcs h)(global c \<mapsto> r\<lparr>ref := ref r + of_nat (Suc n)\<rparr>)"
    by (simp add: rc g h1_def r1_def add.assoc)
  moreover have "run_ops (replicate (Suc n) (Inc a)) h = Inr h'"
    using step run by simp
  ultimately show ?case by blast
qed

lemma no_imbalance_replicate_inc:
  assumes "classes h a = Some c" and "rcs h (global c) = Some r"
    and "0 \<le> sint (cref c)" and "sint (cref c) + int n \<le> 2147483647"
  shows "no_imbalance h (replicate n (Inc a))"
  using assms
proof (induction n arbitrary: h c r)
  case 0
  show ?case by simp
next
  case (Suc n)
  define c1 where "c1 = c\<lparr>cref := cref c + 1\<rparr>"
  define r1 where "r1 = r\<lparr>ref := ref r + 1\<rparr>"
  define h1 where "h1 = h\<lparr>classes := (classes h)(a \<mapsto> c1), rcs := (rcs h)(global c \<mapsto> r1)\<rparr>"
  have step: "refcount_inc a h = Inr h1"
    using refcount_add_eq [OF Suc.prems(1,2), of 1]
    by (simp add: refcount_inc_add atomic_add_def h1_def c1_def r1_def)
  have s: "sint (cref c1) = sint (cref c) + 1"
    using Suc.prems(3,4) sint_add_in_range [of "cref c" 1] by (simp add: c1_def)
  have g: "global c1 = global c" by (simp add: c1_def)
  have c1: "classes h1 a = Some c1" by (simp add: h1_def)
  have r1: "rcs h1 (global c1) = Some r1" by (simp add: h1_def g)
  have "no_imbalance h1 (replicate n (Inc a))"
    using Suc.prems(3,4) s by (intro Suc.IH [OF c1 r1]) simp_all
  with step s c1 Suc.prems(3) show ?case
    by (simp add: class_nonneg_def atomic_read_def)
qed

lemma no_imbalance_append:
  "no_imbalance h (xs @ ys) \<longleftrightarrow>
     no_imbalance h xs \<and> (case run_ops xs h of Inl e \<Rightarrow> True | Inr h1 \<Rightarrow> no_imbalance h1 ys)"
  by (induction xs arbitrary: h) (auto split: sum.splits)

lemma net_delta_replicate_inc: "net_delta (replicate n (Inc a)) = int n"
  by (simp add: net_delta_def sum_list_replicate)

lemma net_delta_append: "net_delta (xs @ ys) = net_delta xs + net_delta ys"
  by (simp add: net_delta_def)

subsection \<open>Keys: what \<^verbatim>\<open>strncpy\<close> stores and \<^verbatim>\<open>strncmp\<close> compares\<close>

lemma peek_cstr: "peek (cstr k) = peek k"
  by (cases k) (auto simp: cstr_def)

lemma cstr_id: "NUL \<notin> set k \<Longrightarrow> cstr k = k"
  by (auto simp: cstr_def takeWhile_eq_all_conv)

lemma cstr_nul: "peek k = NUL \<Longrightarrow> cstr k = []"
  by (cases k) (auto simp: cstr_def)

lemma cstr_cons: "peek k \<noteq> NUL \<Longrightarrow> cstr k = peek k # cstr (tl k)"
  by (cases k) (auto simp: cstr_def)

lemma length_strncpy: "length (strncpy k n) = n"
  by (induction k n rule: strncpy.induct) auto

lemma strncpy_nul: "peek k = NUL \<Longrightarrow> strncpy k n = replicate n NUL"
  by (induction n) auto

lemma cstr_no_nul: "NUL \<notin> set (cstr k)"
  by (auto simp: cstr_def dest: set_takeWhileD)

lemma cstr_append: "cstr (xs @ ys) = (if NUL \<in> set xs then cstr xs else xs @ cstr ys)"
  by (auto simp: cstr_def takeWhile_append)

text \<open>What \<^verbatim>\<open>strncpy\<close> stores: the first \<open>n\<close> characters of the string, padded with NUL.\<close>

lemma strncpy_eq: "strncpy k n = take n (cstr k) @ replicate (n - length (cstr k)) NUL"
proof (induction n arbitrary: k)
  case 0
  show ?case by simp
next
  case (Suc n)
  show ?case
  proof (cases "peek k = NUL")
    case True
    then show ?thesis by (simp add: cstr_nul strncpy_nul)
  next
    case False
    then show ?thesis using Suc.IH [of "tl k"] by (simp add: cstr_cons)
  qed
qed

lemma cstr_replicate_nul: "cstr (replicate m NUL) = []"
  by (cases m) (simp_all add: cstr_def)

lemma cstr_strncpy: "cstr (strncpy k n) = take n (cstr k)"
proof -
  have "NUL \<notin> set (take n (cstr k))"
    using cstr_no_nul [of k] by (auto dest: in_set_takeD)
  then have "cstr (take n (cstr k) @ replicate (n - length (cstr k)) NUL) = take n (cstr k)"
    by (simp only: cstr_append cstr_replicate_nul if_False append_Nil2)
  then show ?thesis by (simp only: strncpy_eq)
qed

lemma strncpy_cstr: "strncpy k n = strncpy (take n (cstr k)) n"
proof (induction n arbitrary: k)
  case 0
  show ?case by simp
next
  case (Suc n)
  show ?case
  proof (cases "peek k = NUL")
    case True
    then show ?thesis by (simp add: cstr_nul strncpy_nul)
  next
    case False
    then show ?thesis using Suc.IH [of "tl k"] by (simp add: cstr_cons)
  qed
qed

lemma strncmp_cstr: "strncmp b k n = strncmp b (take n (cstr k)) n"
proof (induction n arbitrary: b k)
  case 0
  show ?case by simp
next
  case (Suc n)
  show ?case
  proof (cases "peek k = NUL")
    case True
    then show ?thesis by (simp add: cstr_nul Let_def)
  next
    case False
    then show ?thesis using Suc.IH [of "tl b" "tl k"] by (simp add: cstr_cons Let_def)
  qed
qed

lemma strncmp_strncpy_self: "strncmp (strncpy k n) k n = 0"
  by (induction k n rule: strncpy.induct) (auto simp: Let_def)

lemma strncmp_zero_iff: "strncmp b k n = 0 \<longleftrightarrow> take n (cstr b) = take n (cstr k)"
proof (induction n arbitrary: b k)
  case 0
  show ?case by simp
next
  case (Suc n)
  show ?case
  proof (cases "peek b = NUL")
    case bn: True
    show ?thesis
    proof (cases "peek k = NUL")
      case True
      with bn show ?thesis by (simp add: cstr_nul)
    next
      case False
      with bn show ?thesis by (auto simp: cstr_nul cstr_cons Let_def)
    qed
  next
    case bn: False
    show ?thesis
    proof (cases "peek k = NUL")
      case True
      with bn show ?thesis by (auto simp: cstr_nul cstr_cons Let_def)
    next
      case False
      with bn show ?thesis using Suc.IH [of "tl b" "tl k"]
        by (auto simp: cstr_cons Let_def)
    qed
  qed
qed

lemma strncpy_idem: "strncpy (strncpy k n) n = strncpy k n"
proof -
  have "strncpy (strncpy k n) n = strncpy (take n (cstr (strncpy k n))) n"
    by (rule strncpy_cstr)
  also have "\<dots> = strncpy (take n (cstr k)) n" by (simp add: cstr_strncpy)
  also have "\<dots> = strncpy k n" by (rule strncpy_cstr [symmetric])
  finally show ?thesis .
qed

lemma strncpy_eq_iff: "strncpy k1 n = strncpy k2 n \<longleftrightarrow> take n (cstr k1) = take n (cstr k2)"
proof
  assume "strncpy k1 n = strncpy k2 n"
  then have "cstr (strncpy k1 n) = cstr (strncpy k2 n)" by simp
  then show "take n (cstr k1) = take n (cstr k2)" by (simp only: cstr_strncpy)
next
  assume "take n (cstr k1) = take n (cstr k2)"
  then show "strncpy k1 n = strncpy k2 n"
    using strncpy_cstr [of k1 n] strncpy_cstr [of k2 n] by simp
qed

lemma strncmp_buffer:
  assumes "b = strncpy b n"
  shows "strncmp b k n = 0 \<longleftrightarrow> b = strncpy k n"
proof -
  have "strncmp b k n = 0 \<longleftrightarrow> strncpy b n = strncpy k n"
    by (simp only: strncmp_zero_iff strncpy_eq_iff)
  with assms show ?thesis by simp
qed

lemma strncpy_buffer: "b = strncpy b n \<longleftrightarrow> (\<exists>k. b = strncpy k n)"
  by (metis strncpy_idem)

subsection \<open>Class lookup\<close>

lemma class_scan_cstr:
  "class_scan h t k = class_scan h t (take REFCOUNT_KEY_MAX (cstr k))"
proof (induction t)
  case Nil
  show ?case by simp
next
  case (Cons a t)
  have "strncmp b k REFCOUNT_KEY_MAX = strncmp b (take REFCOUNT_KEY_MAX (cstr k)) REFCOUNT_KEY_MAX" for b
    by (rule strncmp_cstr)
  with Cons show ?case by (simp split: option.splits)
qed

lemma class_scan_found:
  assumes "class_scan h t k = Inr (Some rcc)"
  shows "rcc \<in> set t \<and> (\<exists>c. classes h rcc = Some c \<and> strncmp (key c) k REFCOUNT_KEY_MAX = 0)"
  using assms by (induction t) (auto split: option.splits if_splits)

lemma refcount_class_get_cstr:
  "refcount_class_get rc k h = refcount_class_get rc (take REFCOUNT_KEY_MAX (cstr k)) h"
proof -
  have s: "strncpy k REFCOUNT_KEY_MAX = strncpy (take REFCOUNT_KEY_MAX (cstr k)) REFCOUNT_KEY_MAX"
    by (rule strncpy_cstr)
  have c: "class_scan h t k = class_scan h t (take REFCOUNT_KEY_MAX (cstr k))" for t
    by (rule class_scan_cstr)
  show ?thesis
    unfolding refcount_class_get_def refcount_class_init_def s [symmetric] c [symmetric] ..
qed

lemma refcount_class_get_cases:
  assumes "refcount_class_get rc k h = Inr (rcc, h1)"
  obtains (found) r c where "rcs h rc = Some r" "rcc \<in> set (table r)" "classes h rcc = Some c"
      "strncmp (key c) k REFCOUNT_KEY_MAX = 0" "h1 = h"
  | (created) r where "rcs h rc = Some r" "class_scan h (table r) k = Inr None" "rcc = brk h"
      "h1 = h\<lparr>brk := Suc (brk h),
              classes := (classes h)(brk h \<mapsto>
                \<lparr>key = strncpy k REFCOUNT_KEY_MAX, cref = 0, action = None, global = rc\<rparr>),
              rcs := (rcs h)(rc \<mapsto> r\<lparr>table := brk h # table r\<rparr>)\<rparr>"
proof -
  from assms obtain r where r: "rcs h rc = Some r"
    by (auto simp: refcount_class_get_def split: option.splits)
  show thesis
  proof (cases "class_scan h (table r) k")
    case (Inl e)
    with assms r show ?thesis by (simp add: refcount_class_get_def)
  next
    case (Inr res)
    show ?thesis
    proof (cases res)
      case None
      with Inr assms r show ?thesis
        by (intro created [of r]) (auto simp: refcount_class_get_def refcount_class_init_def kzalloc_def)
    next
      case (Some a)
      with Inr assms r have "a = rcc" "h1 = h" by (auto simp: refcount_class_get_def)
      with Some Inr class_scan_found [of h "table r" k rcc] r show ?thesis
        by (auto intro: found)
    qed
  qed
qed

lemma refcount_class_get_again:
  assumes "refcount_class_get rc k h = Inr (rcc, h1)"
  shows "refcount_class_get rc k h1 = Inr (rcc, h1)"
  using assms
proof (cases rule: refcount_class_get_cases)
  case (found r c)
  with assms show ?thesis by simp
next
  case (created r)
  then show ?thesis
    by (simp add: refcount_class_get_def strncmp_strncpy_self)
qed

subsection \<open>Well-formed collections\<close>

lemma class_scan_total:
  assumes "list_all (\<lambda>a. classes h a \<noteq> None) t"
  shows "\<exists>res. class_scan h t k = Inr res"
  using assms by (induction t) auto

lemma wf_table_allocated:
  assumes "wf_table h rc" and "rcs h rc = Some r"
  shows "list_all (\<lambda>a. classes h a \<noteq> None) (table r)"
  using assms by (auto simp: wf_table_def owner_def list_all_iff)

lemma refcount_class_get_total:
  assumes "wf_table h rc"
  shows "\<exists>rcc h1. refcount_class_get rc k h = Inr (rcc, h1)"
proof -
  from assms obtain r where r: "rcs h rc = Some r"
    by (auto simp: wf_table_def split: option.splits)
  from class_scan_total [OF wf_table_allocated [OF assms r], of k]
  obtain res where "class_scan h (table r) k = Inr res" by blast
  with r show ?thesis
    by (cases res) (simp_all add: refcount_class_get_def refcount_class_init_def kzalloc_def)
qed

lemma refcount_class_get_wf:
  assumes "refcount_class_get rc' k h = Inr (rcc, h1)" and "wf_table h rc"
  shows "wf_table h1 rc"
  using assms(1)
proof (cases rule: refcount_class_get_cases)
  case (found r c)
  with assms(2) show ?thesis by simp
next
  case (created r)
  from assms(2) obtain r0 where r0: "rcs h rc = Some r0"
    and all: "\<forall>a \<in> set (table r0). a < brk h \<and> owner h a = Some rc"
    by (auto simp: wf_table_def list_all_iff split: option.splits)
  have own: "owner h1 a = owner h a" if "a < brk h" for a
    using that created(4) by (simp add: owner_def)
  have new: "owner h1 (brk h) = Some rc'" using created(4) by (simp add: owner_def)
  have b: "brk h1 = Suc (brk h)" using created(4) by simp
  show ?thesis
  proof (cases "rc = rc'")
    case True
    with created r0 have "rcs h1 rc = Some (r0\<lparr>table := brk h # table r0\<rparr>)" by simp
    with all own new b True show ?thesis
      by (auto simp: wf_table_def list_all_iff)
  next
    case False
    with created r0 have "rcs h1 rc = Some r0" by simp
    with all own b show ?thesis
      by (auto simp: wf_table_def list_all_iff)
  qed
qed

lemma refcount_get_wf:
  assumes "refcount_get h = (rc, h0)"
  shows "wf_table h0 rc"
  using assms by (auto simp: refcount_get_def kzalloc_def wf_table_def)

lemma refcount_get_wf_other:
  assumes "refcount_get h = (rc', h0)" and "wf_table h rc"
  shows "wf_table h0 rc"
proof -
  from assms(1) have h0: "h0 = h\<lparr>brk := Suc (brk h),
      rcs := (rcs h)(brk h \<mapsto> \<lparr>ref = 0, table = []\<rparr>)\<rparr>"
    by (auto simp: refcount_get_def kzalloc_def)
  from assms(2) obtain r where r: "rcs h rc = Some r"
    and all: "\<forall>a \<in> set (table r). a < brk h \<and> owner h a = Some rc"
    by (auto simp: wf_table_def list_all_iff split: option.splits)
  have own: "owner h0 a = owner h a" for a by (simp add: h0 owner_def)
  show ?thesis
  proof (cases "rc = brk h")
    case True
    then show ?thesis by (simp add: h0 wf_table_def)
  next
    case False
    with r have "rcs h0 rc = Some r" by (simp add: h0)
    moreover have "a < brk h0" if "a \<in> set (table r)" for a
      using all that by (auto simp: h0 less_Suc_eq)
    ultimately show ?thesis using all own by (auto simp: wf_table_def list_all_iff)
  qed
qed

lemma exec_wf:
  assumes "exec x h = Inr h1" and "wf_table h rc"
  shows "wf_table h1 rc"
proof -
  from assms(2) obtain r where r: "rcs h rc = Some r"
    and all: "\<forall>a \<in> set (table r). a < brk h \<and> owner h a = Some rc"
    by (auto simp: wf_table_def list_all_iff split: option.splits)
  from exec_brk_tables [OF assms(1), of rc] r obtain r1
    where "rcs h1 rc = Some r1" "table r1 = table r" "brk h1 = brk h" by auto
  with all exec_owner [OF assms(1)] show ?thesis
    by (auto simp: wf_table_def list_all_iff)
qed

lemma wf_table_member:
  assumes "wf_table h rc" and "rcs h rc = Some r" and "rcc \<in> set (table r)"
  obtains c where "classes h rcc = Some c" "global c = rc" "rcc < brk h"
  using assms by (auto simp: wf_table_def owner_def list_all_iff)

lemma refcount_class_get_member:
  assumes "refcount_class_get rc k h = Inr (rcc, h1)"
  shows "\<exists>r1 c. rcs h1 rc = Some r1 \<and> rcc \<in> set (table r1) \<and> classes h1 rcc = Some c \<and>
           strncmp (key c) k REFCOUNT_KEY_MAX = 0"
  using assms
proof (cases rule: refcount_class_get_cases)
  case (found r c)
  then show ?thesis by auto
next
  case (created r)
  then show ?thesis by (simp add: strncmp_strncpy_self)
qed

text \<open>On a class of a well-formed collection, a counting call returns or hits \<^verbatim>\<open>BUG_ON\<close>.\<close>

lemma wf_counting_total:
  assumes "wf_table h rc" and "rcs h rc = Some r" and "rcc \<in> set (table r)"
  shows "(\<exists>h1. refcount_add n rcc h = Inr h1) \<and> (\<exists>h1. refcount_inc rcc h = Inr h1) \<and>
         refcount_dec rcc h \<noteq> Inl Fault \<and> refcount_dec_and_test rcc h \<noteq> Inl Fault"
proof -
  from wf_table_member [OF assms] obtain c where c: "classes h rcc = Some c" "global c = rc"
    by blast
  with assms(2) have r: "rcs h (global c) = Some r" by simp
  have "refcount_dec rcc h \<noteq> Inl Fault"
    using c(1) r by (simp add: op_defs)
  moreover have "refcount_dec_and_test rcc h \<noteq> Inl Fault"
    using c(1) r by (auto simp: op_defs split: sum.splits)
  ultimately show ?thesis
    using refcount_add_eq [OF c(1) r] by (simp add: refcount_inc_add)
qed

subsection \<open>The classes of the keys of a well-formed collection\<close>

lemma class_scan_find:
  assumes "list_all (\<lambda>a. case stored_key h a of None \<Rightarrow> False
                          | Some b \<Rightarrow> b = strncpy b REFCOUNT_KEY_MAX) t"
  shows "class_scan h t k =
           Inr (find (\<lambda>a. stored_key h a = Some (strncpy k REFCOUNT_KEY_MAX)) t)"
  using assms
proof (induction t)
  case Nil
  show ?case by simp
next
  case (Cons a t)
  from Cons.prems obtain c where c: "classes h a = Some c"
    and b: "key c = strncpy (key c) REFCOUNT_KEY_MAX"
    by (auto simp: stored_key_def split: option.splits)
  from Cons have IH: "class_scan h t k =
      Inr (find (\<lambda>a. stored_key h a = Some (strncpy k REFCOUNT_KEY_MAX)) t)" by simp
  from strncmp_buffer [OF b, of k] c IH show ?case
    by (simp add: stored_key_def)
qed

lemma find_distinct_image:
  assumes "distinct (map f t)" and "a \<in> set t" and "f a = v"
  shows "find (\<lambda>x. f x = v) t = Some a"
  using assms by (induction t) auto

lemma wf_keys_wf_table: "wf_keys h rc \<Longrightarrow> wf_table h rc"
  by (simp add: wf_keys_def)

lemma wf_keys_cases:
  assumes "wf_keys h rc"
  obtains r where "rcs h rc = Some r" "distinct (map (stored_key h) (table r))"
    "list_all (\<lambda>a. case stored_key h a of None \<Rightarrow> False
                    | Some b \<Rightarrow> b = strncpy b REFCOUNT_KEY_MAX) (table r)"
    "\<forall>a \<in> set (table r). a < brk h \<and> owner h a = Some rc"
  using assms by (auto simp: wf_keys_def wf_table_def list_all_iff split: option.splits)

text \<open>A key with a class in the collection: the lookup returns that class and changes nothing.\<close>

lemma refcount_class_get_registered:
  assumes "wf_keys h rc" and "registered h rc k rcc"
  shows "refcount_class_get rc k h = Inr (rcc, h)"
proof -
  from assms(1) obtain r where r: "rcs h rc = Some r"
    and d: "distinct (map (stored_key h) (table r))"
    and w: "list_all (\<lambda>a. case stored_key h a of None \<Rightarrow> False
                    | Some b \<Rightarrow> b = strncpy b REFCOUNT_KEY_MAX) (table r)"
    by (rule wf_keys_cases)
  from assms(2) r have m: "rcc \<in> set (table r)"
    and s: "stored_key h rcc = Some (strncpy k REFCOUNT_KEY_MAX)"
    by (simp_all add: registered_def)
  from class_scan_find [OF w, of k] find_distinct_image [OF d m s]
  have "class_scan h (table r) k = Inr (Some rcc)" by simp
  with r show ?thesis by (simp add: refcount_class_get_def)
qed

text \<open>A key with no class in the collection: the lookup allocates one, at the head.\<close>

lemma refcount_class_get_unregistered:
  assumes "wf_keys h rc" and "\<forall>rcc. \<not> registered h rc k rcc" and "rcs h rc = Some r"
  shows "refcount_class_get rc k h =
           Inr (brk h, h\<lparr>brk := Suc (brk h),
              classes := (classes h)(brk h \<mapsto>
                \<lparr>key = strncpy k REFCOUNT_KEY_MAX, cref = 0, action = None, global = rc\<rparr>),
              rcs := (rcs h)(rc \<mapsto> r\<lparr>table := brk h # table r\<rparr>)\<rparr>)"
proof -
  from assms(1) assms(3) have
     w: "list_all (\<lambda>a. case stored_key h a of None \<Rightarrow> False
                    | Some b \<Rightarrow> b = strncpy b REFCOUNT_KEY_MAX) (table r)"
    and o: "\<forall>a \<in> set (table r). a < brk h \<and> owner h a = Some rc"
    by (auto elim!: wf_keys_cases)
  have "find (\<lambda>a. stored_key h a = Some (strncpy k REFCOUNT_KEY_MAX)) (table r) = None"
    using assms(2) assms(3) o by (auto simp: find_None_iff registered_def)
  with class_scan_find [OF w, of k] have "class_scan h (table r) k = Inr None" by simp
  with assms(3) show ?thesis
    by (simp add: refcount_class_get_def refcount_class_init_def kzalloc_def)
qed

lemma registered_unique:
  assumes "wf_keys h rc" and "registered h rc k rcc" and "registered h rc k' rcc'"
  shows "rcc = rcc' \<longleftrightarrow> key_prefix k = key_prefix k'"
proof -
  from assms(1) obtain r where r: "rcs h rc = Some r"
    and d: "distinct (map (stored_key h) (table r))"
    by (rule wf_keys_cases)
  from assms(2) r have m: "rcc \<in> set (table r)"
    and s: "stored_key h rcc = Some (strncpy k REFCOUNT_KEY_MAX)"
    by (simp_all add: registered_def)
  from assms(3) r have m': "rcc' \<in> set (table r)"
    and s': "stored_key h rcc' = Some (strncpy k' REFCOUNT_KEY_MAX)"
    by (simp_all add: registered_def)
  from d m m' have "rcc = rcc' \<longleftrightarrow> stored_key h rcc = stored_key h rcc'"
    by (auto simp: distinct_map inj_on_def)
  then show ?thesis by (simp add: s s' strncpy_eq_iff key_prefix_def)
qed

lemma registered_class:
  assumes "registered h rc k rcc"
  shows "\<exists>r c. rcs h rc = Some r \<and> rcc \<in> set (table r) \<and> classes h rcc = Some c \<and>
           global c = rc \<and> key c = strncpy k REFCOUNT_KEY_MAX"
  using assms by (auto simp: registered_def owner_def stored_key_def split: option.splits)

text \<open>
  One lookup on a well-formed collection: it returns, the collection stays well-formed, the
  class returned is the class of the key, and the classes the collection had are kept.
\<close>

lemma refcount_class_get_wf_keys:
  assumes "wf_keys h rc"
  shows "\<exists>rcc h1. refcount_class_get rc k h = Inr (rcc, h1) \<and> wf_keys h1 rc \<and>
           registered h1 rc k rcc \<and>
           (\<forall>k' a. registered h rc k' a \<longrightarrow> registered h1 rc k' a) \<and>
           (\<forall>a. registered h rc k a \<longrightarrow> rcc = a \<and> h1 = h)"
proof (cases "\<exists>a. registered h rc k a")
  case True
  then obtain a where a: "registered h rc k a" ..
  have u: "a' = a" if "registered h rc k a'" for a'
    using registered_unique [OF assms that a] by simp
  have g: "refcount_class_get rc k h = Inr (a, h)"
    by (rule refcount_class_get_registered [OF assms a])
  show ?thesis
  proof (intro exI conjI allI impI)
    show "refcount_class_get rc k h = Inr (a, h)" by (rule g)
    show "wf_keys h rc" by (rule assms)
    show "registered h rc k a" by (rule a)
    show "a = a'" if "registered h rc k a'" for a' using u [OF that] by (rule sym)
  qed simp_all
next
  case False
  then have n: "\<forall>rcc. \<not> registered h rc k rcc" by simp
  from assms obtain r where r: "rcs h rc = Some r"
    and d: "distinct (map (stored_key h) (table r))"
    and w: "list_all (\<lambda>a. case stored_key h a of None \<Rightarrow> False
                    | Some b \<Rightarrow> b = strncpy b REFCOUNT_KEY_MAX) (table r)"
    and o: "\<forall>a \<in> set (table r). a < brk h \<and> owner h a = Some rc"
    by (rule wf_keys_cases)
  define h1 where "h1 = h\<lparr>brk := Suc (brk h),
              classes := (classes h)(brk h \<mapsto>
                \<lparr>key = strncpy k REFCOUNT_KEY_MAX, cref = 0, action = None, global = rc\<rparr>),
              rcs := (rcs h)(rc \<mapsto> r\<lparr>table := brk h # table r\<rparr>)\<rparr>"
  have g: "refcount_class_get rc k h = Inr (brk h, h1)"
    unfolding h1_def by (rule refcount_class_get_unregistered [OF assms n r])
  have wt: "wf_table h1 rc"
    by (rule refcount_class_get_wf [OF g wf_keys_wf_table [OF assms]])
  have r1: "rcs h1 rc = Some (r\<lparr>table := brk h # table r\<rparr>)" by (simp add: h1_def)
  have old: "stored_key h1 a = stored_key h a" "owner h1 a = owner h a" if "a \<in> set (table r)" for a
    using o that by (auto simp: h1_def stored_key_def owner_def)
  have new: "stored_key h1 (brk h) = Some (strncpy k REFCOUNT_KEY_MAX)" "owner h1 (brk h) = Some rc"
    by (simp_all add: h1_def stored_key_def owner_def)
  have fresh: "stored_key h a \<noteq> Some (strncpy k REFCOUNT_KEY_MAX)" if "a \<in> set (table r)" for a
    using n r o that by (auto simp: registered_def)
  have m: "map (stored_key h1) (table r) = map (stored_key h) (table r)"
    using old by simp
  have d1: "distinct (map (stored_key h1) (brk h # table r))"
  proof -
    have "Some (strncpy k REFCOUNT_KEY_MAX) \<notin> stored_key h ` set (table r)"
    proof
      assume "Some (strncpy k REFCOUNT_KEY_MAX) \<in> stored_key h ` set (table r)"
      then obtain a where "a \<in> set (table r)" "Some (strncpy k REFCOUNT_KEY_MAX) = stored_key h a"
        by (rule imageE)
      with fresh [of a] show False by simp
    qed
    with d show ?thesis by (simp add: m new)
  qed
  have w1: "list_all (\<lambda>a. case stored_key h1 a of None \<Rightarrow> False
                    | Some b \<Rightarrow> b = strncpy b REFCOUNT_KEY_MAX) (brk h # table r)"
    using w old by (auto simp: new strncpy_idem list_all_iff)
  have wk: "wf_keys h1 rc"
    using wt d1 w1 by (simp add: wf_keys_def r1)
  have reg: "registered h1 rc k (brk h)"
    by (simp add: registered_def r1 new)
  have keep: "registered h1 rc k' a" if "registered h rc k' a" for k' a
    using that r old [of a] by (auto simp: registered_def r1)
  show ?thesis
  proof (intro exI conjI allI impI)
    show "refcount_class_get rc k h = Inr (brk h, h1)" by (rule g)
    show "wf_keys h1 rc" by (rule wk)
    show "registered h1 rc k (brk h)" by (rule reg)
    show "registered h1 rc k' a" if "registered h rc k' a" for k' a by (rule keep [OF that])
  qed (use n in simp_all)
qed

lemma refcount_get_wf_keys:
  assumes "refcount_get h = (rc, h0)"
  shows "wf_keys h0 rc"
  using refcount_get_wf [OF assms] assms
  by (auto simp: wf_keys_def refcount_get_def kzalloc_def)

lemma exec_stored_key:
  assumes "exec x h = Inr h1"
  shows "stored_key h1 b = stored_key h b"
  using assms by (cases rule: exec_cases) (auto simp: stored_key_def)

lemma exec_table:
  assumes "exec x h = Inr h1" and "rcs h rc = Some r"
  obtains r1 where "rcs h1 rc = Some r1" "table r1 = table r"
  using exec_brk_tables [OF assms(1), of rc] assms(2) by auto

lemma exec_registered:
  assumes "exec x h = Inr h1" and "registered h rc k a"
  shows "registered h1 rc k a"
proof -
  from assms(2) obtain r where r: "rcs h rc = Some r"
    by (auto simp: registered_def split: option.splits)
  from assms(1) r obtain r1 where r1: "rcs h1 rc = Some r1" "table r1 = table r"
    by (rule exec_table)
  from assms(2) r r1 show ?thesis
    by (simp add: registered_def exec_stored_key [OF assms(1)] exec_owner [OF assms(1)])
qed

lemma exec_wf_keys:
  assumes "exec x h = Inr h1" and "wf_keys h rc"
  shows "wf_keys h1 rc"
proof -
  from assms(2) obtain r where r: "rcs h rc = Some r"
    by (rule wf_keys_cases)
  from assms(1) r obtain r1 where r1: "rcs h1 rc = Some r1" "table r1 = table r"
    by (rule exec_table)
  have s: "stored_key h1 = stored_key h"
    by (rule ext) (rule exec_stored_key [OF assms(1)])
  from assms(2) exec_wf [OF assms(1) wf_keys_wf_table [OF assms(2)]] r r1 show ?thesis
    by (simp add: wf_keys_def s)
qed

text \<open>
  A run of lookups and counting calls on a well-formed collection: it returns if its counting
  calls do, and every lookup returns the class of its key in the final collection.
\<close>

lemma calls_registered:
  assumes "wf_keys h rc" and "counting_returns rc cs h"
  shows "\<exists>rccs h'. calls rc cs h = Inr (rccs, h') \<and> wf_keys h' rc \<and>
           list_all2 (registered h' rc) (lookup_keys cs) rccs \<and>
           (\<forall>k a. registered h rc k a \<longrightarrow> registered h' rc k a)"
  using assms
proof (induction cs arbitrary: h)
  case Nil
  then show ?case by simp
next
  case (Cons c cs)
  show ?case
  proof (cases c)
    case (Lookup k)
    from refcount_class_get_wf_keys [OF Cons.prems(1), of k]
    obtain rcc h1 where g: "refcount_class_get rc k h = Inr (rcc, h1)"
      and w1: "wf_keys h1 rc" and reg: "registered h1 rc k rcc"
      and keep: "\<And>k' a. registered h rc k' a \<Longrightarrow> registered h1 rc k' a"
      by blast
    from Cons.prems(2) Lookup g have "counting_returns rc cs h1" by simp
    from Cons.IH [OF w1 this]
    obtain rccs h' where r: "calls rc cs h1 = Inr (rccs, h')" and w': "wf_keys h' rc"
      and all: "list_all2 (registered h' rc) (lookup_keys cs) rccs"
      and keep': "\<And>k a. registered h1 rc k a \<Longrightarrow> registered h' rc k a"
      by blast
    show ?thesis
    proof (intro exI conjI allI impI)
      show "calls rc (c # cs) h = Inr (rcc # rccs, h')" using Lookup g r by simp
      show "wf_keys h' rc" by (rule w')
      show "list_all2 (registered h' rc) (lookup_keys (c # cs)) (rcc # rccs)"
        using Lookup all keep' [OF reg] by simp
      show "registered h' rc k' a" if "registered h rc k' a" for k' a
        by (rule keep' [OF keep [OF that]])
    qed
  next
    case (Count x)
    with Cons.prems(2) obtain h1 where e: "exec x h = Inr h1"
      and c1: "counting_returns rc cs h1"
      by (auto split: sum.splits)
    from Cons.IH [OF exec_wf_keys [OF e Cons.prems(1)] c1]
    obtain rccs h' where r: "calls rc cs h1 = Inr (rccs, h')" and w': "wf_keys h' rc"
      and all: "list_all2 (registered h' rc) (lookup_keys cs) rccs"
      and keep': "\<And>k a. registered h1 rc k a \<Longrightarrow> registered h' rc k a"
      by blast
    show ?thesis
    proof (intro exI conjI allI impI)
      show "calls rc (c # cs) h = Inr (rccs, h')" using Count e r by simp
      show "wf_keys h' rc" by (rule w')
      show "list_all2 (registered h' rc) (lookup_keys (c # cs)) rccs"
        using Count all by simp
      show "registered h' rc k' a" if "registered h rc k' a" for k' a
        by (rule keep' [OF exec_registered [OF e that]])
    qed
  qed
qed

subsection \<open>Balanced collections\<close>

lemma map_cong_except:
  assumes "a \<notin> set t" and "\<And>b. b \<noteq> a \<Longrightarrow> f' b = f b"
  shows "map f' t = map f t"
  using assms by (induction t) auto

lemma sum_list_update:
  fixes f f' :: "'a \<Rightarrow> int"
  assumes "distinct t" and "a \<in> set t" and "\<And>b. b \<noteq> a \<Longrightarrow> f' b = f b"
  shows "sum_list (map f' t) = sum_list (map f t) + (f' a - f a)"
  using assms(1,2)
proof (induction t)
  case Nil
  then show ?case by simp
next
  case (Cons b t)
  show ?case
  proof (cases "b = a")
    case True
    with Cons.prems have "a \<notin> set t" by simp
    then have "map f' t = map f t" by (rule map_cong_except) (rule assms(3))
    then have "sum_list (map f' t) = sum_list (map f t)" by (rule arg_cong)
    with True show ?thesis by simp
  next
    case False
    with Cons.prems have "distinct t" "a \<in> set t" by simp_all
    from Cons.IH [OF this] assms(3) [OF False] show ?thesis by simp
  qed
qed

lemma member_le_sum_int:
  fixes f :: "'a \<Rightarrow> int"
  assumes "\<forall>b \<in> set t. 0 \<le> f b" and "a \<in> set t"
  shows "f a \<le> sum_list (map f t)"
  using assms
proof (induction t)
  case Nil
  then show ?case by simp
next
  case (Cons b t)
  have nn: "0 \<le> sum_list (map f t)"
    using Cons.prems(1) by (intro sum_list_nonneg) auto
  show ?case
  proof (cases "b = a")
    case True
    with nn show ?thesis by simp
  next
    case False
    with Cons.prems have "a \<in> set t" "\<forall>b \<in> set t. 0 \<le> f b" by simp_all
    from Cons.IH [OF this(2,1)] Cons.prems(1) show ?thesis by simp
  qed
qed

lemma balanced_cases:
  assumes "balanced h rc" and "rcs h rc = Some r"
  shows "wf_table h rc" and "distinct (table r)"
    and "\<forall>a \<in> set (table r). 0 \<le> class_count h a"
    and "atomic_read (ref r) = sum_list (map (class_count h) (table r))"
  using assms by (simp_all add: balanced_def list_all_iff)

lemma exec_dec_and_test:
  assumes "classes h a = Some c" and "rcs h (global c) = Some r"
  shows "exec (DecAndTest a) h = refcount_dec a h"
  using dec_and_test_eq [OF assms] by (simp split: sum.splits)

text \<open>
  One counting call on a class of a balanced collection, with no overflow and no imbalance:
  it returns, the class counter and the global counter have both moved by the delta, and the
  collection is balanced again.
\<close>

lemma exec_balanced:
  assumes b: "balanced h rc" and r: "rcs h rc = Some r" and t: "target x \<in> set (table r)"
    and f: "step_fits h x"
    and n: "case exec x h of Inl e \<Rightarrow> True | Inr h1 \<Rightarrow> class_nonneg h1 (target x)"
  shows "\<exists>h1 r1. exec x h = Inr h1 \<and> rcs h1 rc = Some r1 \<and> table r1 = table r \<and>
           atomic_read (ref r1) = atomic_read (ref r) + delta x \<and> balanced h1 rc"
proof -
  define a where "a = target x"
  note bc = balanced_cases [OF b r]
  from wf_table_member [OF bc(1) r t] obtain c where c: "classes h a = Some c"
    and g: "global c = rc" by (auto simp: a_def)
  from r g have rc: "rcs h (global c) = Some r" by simp
  have cc: "class_count h a = sint (cref c)"
    by (simp add: class_count_def c atomic_read_def)
  have c0: "0 \<le> sint (cref c)" using bc(3) t cc by (auto simp: a_def)
  have le: "sint (cref c) \<le> sint (ref r)"
    using member_le_sum_int [OF bc(3) t] bc(4) cc by (simp add: a_def atomic_read_def)
  have oref: "owner_ref h a = Some (ref r)" by (rule owner_ref_eq [OF c rc])
  define h1 where "h1 = h\<lparr>classes := (classes h)(a \<mapsto> c\<lparr>cref := cref c + word_of_int (delta x)\<rparr>),
      rcs := (rcs h)(rc \<mapsto> r\<lparr>ref := ref r + word_of_int (delta x)\<rparr>)\<rparr>"
  have dec: "refcount_dec a h = Inr h1 \<and> 0 \<le> sint (cref c) - 1"
    if nd: "case refcount_dec a h of Inl e \<Rightarrow> True | Inr h1 \<Rightarrow> class_nonneg h1 a"
      and d: "delta x = - 1"
  proof -
    have s: "sint (cref c - 1) = sint (cref c) - 1"
      using c0 by (intro sint_dec) simp
    have pos: "0 \<le> sint (cref c) - 1"
    proof (rule ccontr)
      assume "\<not> 0 \<le> sint (cref c) - 1"
      then have neg: "atomic_read (atomic_dec (cref c)) < 0"
        by (simp add: atomic_read_def atomic_dec_def s)
      from refcount_dec_imbalance [OF c neg] nd neg show False
        by (simp add: class_nonneg_def)
    qed
    then have nn: "0 \<le> atomic_read (atomic_dec (cref c))"
      by (simp add: atomic_read_def atomic_dec_def s)
    from pos le have "0 < atomic_read (ref r)" by (simp add: atomic_read_def)
    from refcount_dec_ok [OF c rc nn this] pos show ?thesis
      by (simp add: h1_def d g atomic_dec_def)
  qed
  have step: "exec x h = Inr h1 \<and> 0 \<le> sint (cref c) + delta x \<and>
              sint (ref r) + delta x \<le> 2147483647"
  proof (cases x)
    case (Inc a')
    then have xa: "x = Inc a" by (simp add: a_def)
    from f oref have "sint (ref r) + 1 \<le> 2147483647"
      by (simp add: xa atomic_read_def INT_MAX_def)
    with c0 refcount_add_eq [OF c rc, of 1] show ?thesis
      by (simp add: xa refcount_inc_add h1_def g atomic_add_def)
  next
    case (Add m a')
    then have xa: "x = Add m a" by (simp add: a_def)
    from f oref have "0 \<le> sint m" "sint (ref r) + sint m \<le> 2147483647"
      by (simp_all add: xa atomic_read_def INT_MAX_def)
    with c0 refcount_add_eq [OF c rc, of m] show ?thesis
      by (simp add: xa h1_def g atomic_add_def)
  next
    case (Dec a')
    then have xa: "x = Dec a" by (simp add: a_def)
    from n [folded a_def]
    have "case refcount_dec a h of Inl e \<Rightarrow> True | Inr h1 \<Rightarrow> class_nonneg h1 a"
      by (simp add: xa)
    from dec [OF this] sint_bounds32 [of "ref r"] show ?thesis by (simp add: xa)
  next
    case (DecAndTest a')
    then have xa: "x = DecAndTest a" by (simp add: a_def)
    have e: "exec x h = refcount_dec a h"
      unfolding xa by (rule exec_dec_and_test [OF c rc])
    from n [folded a_def]
    have "case refcount_dec a h of Inl e \<Rightarrow> True | Inr h1 \<Rightarrow> class_nonneg h1 a"
      by (simp add: e)
    from dec [OF this] sint_bounds32 [of "ref r"] e show ?thesis by (simp add: xa)
  qed
  then have e: "exec x h = Inr h1" and lo: "0 \<le> sint (cref c) + delta x"
    and hi: "sint (ref r) + delta x \<le> 2147483647" by simp_all
  have sc: "sint (cref c + word_of_int (delta x)) = sint (cref c) + delta x"
  proof -
    have "cref c + word_of_int (delta x) = word_of_int (sint (cref c) + delta x)" by simp
    moreover have "sint (word_of_int (sint (cref c) + delta x) :: 32 word) = sint (cref c) + delta x"
      using lo hi le by (intro sint_in_range) simp_all
    ultimately show ?thesis by simp
  qed
  have sr: "sint (ref r + word_of_int (delta x)) = sint (ref r) + delta x"
  proof -
    have "ref r + word_of_int (delta x) = word_of_int (sint (ref r) + delta x)" by simp
    moreover have "sint (word_of_int (sint (ref r) + delta x) :: 32 word) = sint (ref r) + delta x"
      using lo hi le by (intro sint_in_range) simp_all
    ultimately show ?thesis by simp
  qed
  define r1 where "r1 = r\<lparr>ref := ref r + word_of_int (delta x)\<rparr>"
  have r1: "rcs h1 rc = Some r1" by (simp add: h1_def r1_def)
  have t1: "table r1 = table r" by (simp add: r1_def)
  have g1: "atomic_read (ref r1) = atomic_read (ref r) + delta x"
    by (simp add: r1_def atomic_read_def sr)
  have other: "class_count h1 b = class_count h b" if "b \<noteq> a" for b
    using that by (simp add: class_count_def h1_def)
  have this_one: "class_count h1 a = class_count h a + delta x"
    by (simp add: class_count_def h1_def atomic_read_def sc c)
  have sum: "sum_list (map (class_count h1) (table r)) =
             sum_list (map (class_count h) (table r)) + delta x"
    using sum_list_update [OF bc(2) t [folded a_def], of "class_count h1" "class_count h"] other
    by (simp add: this_one)
  have nonneg: "0 \<le> class_count h1 b" if "b \<in> set (table r)" for b
  proof (cases "b = a")
    case True
    with this_one cc lo show ?thesis by simp
  next
    case False
    with other [OF False] bc(3) that show ?thesis by simp
  qed
  have "balanced h1 rc"
    using exec_wf [OF e bc(1)] bc(2) nonneg sum bc(4) g1
    by (simp add: balanced_def r1 t1 list_all_iff)
  with e r1 t1 g1 show ?thesis by blast
qed

lemma run_balanced:
  assumes "balanced h rc" and "rcs h rc = Some r"
    and "list_all (\<lambda>x. target x \<in> set (table r)) xs" and "fits h xs" and "no_imbalance h xs"
  shows "\<exists>h' r'. run_ops xs h = Inr h' \<and> rcs h' rc = Some r' \<and> table r' = table r \<and>
           atomic_read (ref r') = atomic_read (ref r) + net_delta xs \<and> balanced h' rc"
  using assms
proof (induction xs arbitrary: h r)
  case Nil
  then show ?case by (simp add: net_delta_def)
next
  case (Cons x xs)
  from Cons.prems(3) have t: "target x \<in> set (table r)"
    and ts: "list_all (\<lambda>x. target x \<in> set (table r)) xs" by simp_all
  from Cons.prems(4) have sf: "step_fits h x" by simp
  from Cons.prems(5) have n: "case exec x h of Inl e \<Rightarrow> True | Inr h1 \<Rightarrow> class_nonneg h1 (target x)"
    by (simp split: sum.splits)
  from exec_balanced [OF Cons.prems(1,2) t sf n]
  obtain h1 r1 where e: "exec x h = Inr h1" and r1: "rcs h1 rc = Some r1"
    and t1: "table r1 = table r"
    and g1: "atomic_read (ref r1) = atomic_read (ref r) + delta x" and b1: "balanced h1 rc"
    by blast
  from Cons.prems(4,5) e have f1: "fits h1 xs" and n1: "no_imbalance h1 xs" by simp_all
  from ts t1 have ts1: "list_all (\<lambda>x. target x \<in> set (table r1)) xs" by simp
  from Cons.IH [OF b1 r1 ts1 f1 n1]
  obtain h' r' where "run_ops xs h1 = Inr h'" "rcs h' rc = Some r'" "table r' = table r1"
    "atomic_read (ref r') = atomic_read (ref r1) + net_delta xs" "balanced h' rc"
    by blast
  with e t1 g1 show ?case by (simp add: net_delta_def)
qed

text \<open>\<^verbatim>\<open>refcount_get\<close> returns a balanced collection, and a lookup keeps it balanced.\<close>

lemma refcount_get_balanced:
  assumes "refcount_get h = (rc, h0)"
  shows "balanced h0 rc"
  using refcount_get_wf [OF assms] assms
  by (auto simp: balanced_def refcount_get_def kzalloc_def atomic_read_def)

lemma refcount_class_get_balanced:
  assumes "refcount_class_get rc k h = Inr (rcc, h1)" and "balanced h rc"
  shows "balanced h1 rc"
  using assms(1)
proof (cases rule: refcount_class_get_cases)
  case (found r c)
  with assms(2) show ?thesis by simp
next
  case (created r)
  note bc = balanced_cases [OF assms(2) created(1)]
  have lt: "a < brk h" if "a \<in> set (table r)" for a
    using wf_table_member [OF bc(1) created(1) that] by blast
  have same: "class_count h1 a = class_count h a" if "a \<in> set (table r)" for a
    using lt [OF that] by (simp add: created(4) class_count_def)
  have new: "class_count h1 (brk h) = 0"
    by (simp add: created(4) class_count_def atomic_read_def)
  have fresh: "brk h \<notin> set (table r)" using lt by blast
  have m: "map (class_count h1) (table r) = map (class_count h) (table r)"
    using same by simp
  have r1: "rcs h1 rc = Some (r\<lparr>table := brk h # table r\<rparr>)" by (simp add: created(4))
  from refcount_class_get_wf [OF assms(1) bc(1)] bc(2-) fresh same new show ?thesis
    by (simp add: balanced_def r1 list_all_iff m)
qed

subsection \<open>The text of a warning\<close>

text \<open>
  A key shorter than 20 characters is stored with its terminator, and the warning names it.
  A key of 20 characters or more fills the buffer, and the warning runs on into the bytes of
  the counter.
\<close>

lemma diagnostic_short:
  assumes "key c = strncpy k REFCOUNT_KEY_MAX" and "length (cstr k) < REFCOUNT_KEY_MAX"
  shows "diagnostic c = warning_text (cstr k)"
proof -
  from assms(2) have "NUL \<in> set (strncpy k REFCOUNT_KEY_MAX)"
    by (simp add: strncpy_eq)
  then have "cstr (bytes_at_key c) = cstr (strncpy k REFCOUNT_KEY_MAX)"
    by (simp add: bytes_at_key_def assms(1) cstr_append)
  with assms(2) show ?thesis by (simp add: diagnostic_def cstr_strncpy)
qed

lemma diagnostic_long:
  assumes "key c = strncpy k REFCOUNT_KEY_MAX" and "REFCOUNT_KEY_MAX \<le> length (cstr k)"
  shows "diagnostic c =
           warning_text (take REFCOUNT_KEY_MAX (cstr k) @
             cstr (atomic_bytes (cref c) @ pointer_bytes (action c) @
                   pointer_bytes (Some (global c))))"
proof -
  from assms(2) have k: "strncpy k REFCOUNT_KEY_MAX = take REFCOUNT_KEY_MAX (cstr k)"
    by (simp add: strncpy_eq)
  have "NUL \<notin> set (take REFCOUNT_KEY_MAX (cstr k))"
    using cstr_no_nul [of k] by (auto dest: in_set_takeD)
  then show ?thesis
    by (simp add: diagnostic_def bytes_at_key_def assms(1) k cstr_append)
qed

lemma atomic_bytes_minus_1: "atomic_bytes (- 1) = [CHR 0xFF, CHR 0xFF, CHR 0xFF, CHR 0xFF]"
  by (simp add: atomic_bytes_def word_byte_def)

lemma pointer_bytes_NULL: "pointer_bytes None = replicate 8 NUL"
  by (simp add: pointer_bytes_def pointer_word_def word_byte_def NUL_def eval_nat_numeral)

subsection \<open>The example heaps\<close>

lemma heap_0_eq:
  "heap_0 = \<lparr>rcs = [0 \<mapsto> \<lparr>ref = 0, table = []\<rparr>], classes = Map.empty, brk = 1, klog = []\<rparr>"
  by (simp add: heap_0_def refcount_get_def kzalloc_def empty_heap_def)

lemma heap_A_eq:
  "heap_A = \<lparr>rcs = [0 \<mapsto> \<lparr>ref = 0, table = [1]\<rparr>], classes = [1 \<mapsto> class_A],
             brk = 2, klog = []\<rparr>"
  by (simp add: heap_A_def heap_0_eq refcount_class_get_def refcount_class_init_def kzalloc_def
      class_A_def)

lemma heap_AB_eq:
  "heap_AB = \<lparr>rcs = [0 \<mapsto> \<lparr>ref = 0, table = [2, 1]\<rparr>],
              classes = [1 \<mapsto> class_A, 2 \<mapsto> class_B], brk = 3, klog = []\<rparr>"
  by (simp add: heap_AB_def heap_A_eq refcount_class_get_def refcount_class_init_def kzalloc_def
      class_A_def class_B_def REFCOUNT_KEY_MAX_def NUL_def eval_nat_numeral)

lemma heap_A_class: "classes heap_A 1 = Some class_A"
  by (simp add: heap_A_eq)

lemma heap_A_rc: "rcs heap_A (global class_A) = Some \<lparr>ref = 0, table = [1]\<rparr>"
  by (simp add: heap_A_eq class_A_def)

lemma heap_A_klog: "klog heap_A = []"
  by (simp add: heap_A_eq)

lemma class_A_cref: "cref class_A = 0"
  by (simp add: class_A_def)

lemma class_A_global: "global class_A = 0"
  by (simp add: class_A_def)

lemma diagnostic_A_rec:
  "diagnostic \<lparr>key = strncpy ''A'' REFCOUNT_KEY_MAX, cref = n, action = p, global = g\<rparr> =
     ''BUG: refcount imbalance on key A !''"
proof -
  have "diagnostic \<lparr>key = strncpy ''A'' REFCOUNT_KEY_MAX, cref = n, action = p, global = g\<rparr> =
          warning_text (cstr ''A'')"
    by (rule diagnostic_short) (simp_all add: cstr_def NUL_def REFCOUNT_KEY_MAX_def)
  then show ?thesis by (simp add: warning_text_def cstr_def NUL_def)
qed

lemma diagnostic_B_rec:
  "diagnostic \<lparr>key = strncpy ''B'' REFCOUNT_KEY_MAX, cref = n, action = p, global = g\<rparr> =
     ''BUG: refcount imbalance on key B !''"
proof -
  have "diagnostic \<lparr>key = strncpy ''B'' REFCOUNT_KEY_MAX, cref = n, action = p, global = g\<rparr> =
          warning_text (cstr ''B'')"
    by (rule diagnostic_short) (simp_all add: cstr_def NUL_def REFCOUNT_KEY_MAX_def)
  then show ?thesis by (simp add: warning_text_def cstr_def NUL_def)
qed

lemma diagnostic_A: "diagnostic (class_A\<lparr>cref := n\<rparr>) = ''BUG: refcount imbalance on key A !''"
  by (simp add: class_A_def diagnostic_A_rec)

lemma heap_A1_class: "classes heap_A1 1 = Some (class_A\<lparr>cref := 1\<rparr>)"
  by (simp add: heap_A1_def)

lemma heap_A1_rc: "rcs heap_A1 (global (class_A\<lparr>cref := 1\<rparr>)) = Some \<lparr>ref = 1, table = [1]\<rparr>"
  by (simp add: heap_A1_def class_A_def)

lemma heap_A1_dec: "refcount_dec 1 heap_A1 = Inr heap_A"
  using refcount_dec_ok [OF heap_A1_class heap_A1_rc]
  by (simp add: atomic_dec_def atomic_read_def heap_A1_def heap_A_eq class_A_def)

lemma heap_0_get: "refcount_get empty_heap = (0, heap_0)"
  by (simp add: heap_0_def refcount_get_def kzalloc_def empty_heap_def)

lemma heap_A_get: "refcount_class_get 0 ''A'' heap_0 = Inr (1, heap_A)"
  by (simp add: heap_A_eq heap_0_eq refcount_class_get_def refcount_class_init_def kzalloc_def
      class_A_def)

lemma heap_AB_get: "refcount_class_get 0 ''B'' heap_A = Inr (2, heap_AB)"
  by (simp add: heap_AB_eq heap_A_eq refcount_class_get_def refcount_class_init_def kzalloc_def
      class_A_def class_B_def REFCOUNT_KEY_MAX_def NUL_def eval_nat_numeral)

lemma key_XY_distinct: "key_X \<noteq> key_Y"
  by (simp add: key_X_def key_Y_def)

lemma key_XY_prefix: "take REFCOUNT_KEY_MAX (cstr key_X) = take REFCOUNT_KEY_MAX (cstr key_Y)"
  by (simp add: key_X_def key_Y_def cstr_def NUL_def REFCOUNT_KEY_MAX_def)

lemma strncpy_key_X: "strncpy key_X REFCOUNT_KEY_MAX = ''aaaaaaaaaaaaaaaaaaaa''"
  by (simp add: key_X_def REFCOUNT_KEY_MAX_def NUL_def eval_nat_numeral)

lemma strncmp_key_Y: "strncmp ''aaaaaaaaaaaaaaaaaaaa'' key_Y REFCOUNT_KEY_MAX = 0"
  by (simp add: key_Y_def REFCOUNT_KEY_MAX_def NUL_def eval_nat_numeral)

lemma get_key_X: "refcount_class_get 0 key_X heap_0 = Inr (1, heap_X)"
  by (simp add: heap_0_eq heap_X_def refcount_class_get_def refcount_class_init_def kzalloc_def
      strncpy_key_X)

lemma get_key_Y: "refcount_class_get 0 key_Y heap_X = Inr (1, heap_X)"
  by (simp add: heap_X_def refcount_class_get_def strncmp_key_Y)

lemmas eval_defs = op_defs atomic_add_def atomic_inc_def atomic_dec_def atomic_read_def
  class_A_def class_B_def owner_ref_def owner_def class_nonneg_def INT_MAX_def

lemma run_ops_A: "run_ops ops_A heap_A = Inr heap_A1"
  by (simp add: ops_A_def heap_A_eq heap_A1_def eval_defs)

lemma fits_ops_A: "fits heap_A ops_A"
  by (simp add: ops_A_def heap_A_eq eval_defs)

lemma run_ops_AB: "run_ops ops_AB heap_AB = Inr heap_AB1"
  by (simp add: ops_AB_def heap_AB_eq heap_AB1_def eval_defs fun_upd_twist)

lemma no_imbalance_ops_AB: "no_imbalance heap_AB ops_AB"
  by (simp add: ops_AB_def heap_AB_eq eval_defs)

lemma net_delta_ops_AB: "net_delta ops_AB = 1"
  by (simp add: ops_AB_def net_delta_def)

lemma heap_AB_class_1: "classes heap_AB 1 = Some class_A"
  by (simp add: heap_AB_eq)

lemma heap_AB_rc: "rcs heap_AB (global class_A) = Some \<lparr>ref = 0, table = [2, 1]\<rparr>"
  by (simp add: heap_AB_eq class_A_def)

lemma owner_ops_wrap: "list_all (\<lambda>x. owner heap_AB (target x) = Some 0) ops_wrap"
  by (simp add: ops_wrap_def list_all_iff owner_def heap_AB_eq class_A_def class_B_def)

lemma net_delta_ops_wrap: "net_delta ops_wrap = 2147483648"
  by (simp add: ops_wrap_def net_delta_append net_delta_replicate_inc)

lemma run_ops_wrap_heap:
  "\<exists>h. run_ops ops_wrap heap_AB = Inr h \<and> no_imbalance heap_AB ops_wrap \<and>
        classes h 1 = Some (class_A\<lparr>cref := 1073741824\<rparr>) \<and>
        rcs h 0 = Some \<lparr>ref = 2147483648, table = [2, 1]\<rparr>"
proof -
  from run_ops_replicate_inc [OF heap_AB_class_1 heap_AB_rc, of 1073741824]
  obtain h1 where run1: "run_ops (replicate 1073741824 (Inc 1)) heap_AB = Inr h1"
    and cl1: "classes h1 = (classes heap_AB)(1 \<mapsto> class_A\<lparr>cref := 1073741824\<rparr>)"
    and rc1: "rcs h1 = (rcs heap_AB)(0 \<mapsto> \<lparr>ref = 1073741824, table = [2, 1]\<rparr>)"
    by (auto simp: class_A_def)
  have c2: "classes h1 2 = Some class_B" by (simp add: cl1 heap_AB_eq)
  have r2: "rcs h1 (global class_B) = Some \<lparr>ref = 1073741824, table = [2, 1]\<rparr>"
    by (simp add: rc1 class_B_def)
  from run_ops_replicate_inc [OF c2 r2, of 1073741824]
  obtain h2 where run2: "run_ops (replicate 1073741824 (Inc 2)) h1 = Inr h2"
    and cl2: "classes h2 = (classes h1)(2 \<mapsto> class_B\<lparr>cref := cref class_B + 1073741824\<rparr>)"
    and rc2: "rcs h2 = (rcs h1)(0 \<mapsto> \<lparr>ref = 2147483648, table = [2, 1]\<rparr>)"
    by (auto simp: class_B_def)
  have b1: "no_imbalance heap_AB (replicate 1073741824 (Inc 1))"
    by (rule no_imbalance_replicate_inc [OF heap_AB_class_1 heap_AB_rc])
      (simp_all add: class_A_def)
  have b2: "no_imbalance h1 (replicate 1073741824 (Inc 2))"
    by (rule no_imbalance_replicate_inc [OF c2 r2]) (simp_all add: class_B_def)
  have "run_ops ops_wrap heap_AB = Inr h2"
    using run1 run2 by (simp add: ops_wrap_def run_ops_append)
  moreover have "no_imbalance heap_AB ops_wrap"
    using run1 b1 b2 by (simp add: ops_wrap_def no_imbalance_append)
  moreover have "classes h2 1 = Some (class_A\<lparr>cref := 1073741824\<rparr>)"
    by (simp add: cl2 cl1)
  moreover have "rcs h2 0 = Some \<lparr>ref = 2147483648, table = [2, 1]\<rparr>"
    by (simp add: rc2)
  ultimately show ?thesis by blast
qed

lemma run_ops_wrap:
  "no_imbalance heap_AB ops_wrap \<and>
   (case run_ops ops_wrap heap_AB of Inl e \<Rightarrow> Inl e | Inr h \<Rightarrow> refcount_read 0 h)
     = Inr (- 2147483648)"
proof -
  from run_ops_wrap_heap obtain h where "run_ops ops_wrap heap_AB = Inr h"
    and "no_imbalance heap_AB ops_wrap"
    and "rcs h 0 = Some \<lparr>ref = 2147483648, table = [2, 1]\<rparr>"
    by blast
  then show ?thesis by (simp add: refcount_read_def atomic_read_def)
qed

text \<open>
  One more \<^verbatim>\<open>refcount_dec\<close> after \<open>ops_wrap\<close> hits \<^verbatim>\<open>BUG_ON\<close>: no class counter is negative and
  the net sum is \<^verbatim>\<open>INT_MAX\<close>, but the global counter has wrapped on the way.
\<close>

lemma run_ops_wrap_then_dec:
  "no_imbalance heap_AB (ops_wrap @ [Dec 1]) \<and> net_delta (ops_wrap @ [Dec 1]) = INT_MAX \<and>
   run_ops (ops_wrap @ [Dec 1]) heap_AB = Inl BUG"
proof -
  from run_ops_wrap_heap obtain h where run: "run_ops ops_wrap heap_AB = Inr h"
    and bal: "no_imbalance heap_AB ops_wrap"
    and c: "classes h 1 = Some (class_A\<lparr>cref := 1073741824\<rparr>)"
    and r0: "rcs h 0 = Some \<lparr>ref = 2147483648, table = [2, 1]\<rparr>"
    by blast
  from r0 have r: "rcs h (global (class_A\<lparr>cref := 1073741824\<rparr>)) =
      Some \<lparr>ref = 2147483648, table = [2, 1]\<rparr>"
    by (simp add: class_A_def)
  have nn: "0 \<le> atomic_read (atomic_dec (cref (class_A\<lparr>cref := 1073741824\<rparr>)))"
    by (simp add: atomic_read_def atomic_dec_def)
  have le: "atomic_read (ref \<lparr>ref = 2147483648, table = [2, 1]\<rparr>) \<le> 0"
    by (simp add: atomic_read_def)
  have bug: "exec (Dec 1) h = Inl BUG"
    using refcount_dec_bug [OF c r nn le] by simp
  have "run_ops (ops_wrap @ [Dec 1]) heap_AB = Inl BUG"
    using run bug by (simp add: run_ops_append)
  moreover have "no_imbalance heap_AB (ops_wrap @ [Dec 1])"
    using run bal bug by (simp add: no_imbalance_append)
  moreover have "net_delta (ops_wrap @ [Dec 1]) = INT_MAX"
    by (simp add: net_delta_append net_delta_ops_wrap INT_MAX_def) (simp add: net_delta_def)
  ultimately show ?thesis by blast
qed

lemma strncpy_key_20: "strncpy key_20 REFCOUNT_KEY_MAX = key_20"
  by (simp add: key_20_def REFCOUNT_KEY_MAX_def NUL_def eval_nat_numeral)

lemma get_key_20: "refcount_class_get 0 key_20 heap_0 = Inr (1, heap_X)"
  using strncpy_key_20
  by (simp add: heap_0_eq heap_X_def refcount_class_get_def refcount_class_init_def kzalloc_def
      key_20_def)

lemma heap_X_class: "classes heap_X 1 = Some class_X"
  by (simp add: heap_X_def class_X_def key_20_def)

lemma diagnostic_X:
  "diagnostic (class_X\<lparr>cref := - 1\<rparr>) =
     warning_text (key_20 @ [CHR 0xFF, CHR 0xFF, CHR 0xFF, CHR 0xFF])"
proof -
  have k: "key (class_X\<lparr>cref := - 1\<rparr>) = strncpy key_20 REFCOUNT_KEY_MAX"
    by (simp add: class_X_def strncpy_key_20)
  have c: "cstr key_20 = key_20"
    by (rule cstr_id) (simp add: key_20_def NUL_def)
  have l: "REFCOUNT_KEY_MAX \<le> length (cstr key_20)"
    by (simp add: c) (simp add: key_20_def REFCOUNT_KEY_MAX_def)
  have t: "take REFCOUNT_KEY_MAX key_20 = key_20"
    by (simp add: key_20_def REFCOUNT_KEY_MAX_def)
  have "cstr ([CHR 0xFF, CHR 0xFF, CHR 0xFF, CHR 0xFF] @ replicate 8 NUL @ pointer_bytes (Some 0))
          = [CHR 0xFF, CHR 0xFF, CHR 0xFF, CHR 0xFF]"
    by (simp add: cstr_def NUL_def eval_nat_numeral)
  then show ?thesis
    using diagnostic_long [OF k l]
    by (simp add: c t class_X_def atomic_bytes_minus_1 pointer_bytes_NULL)
qed

lemma heap_AB_balanced: "balanced heap_AB 0"
  by (rule refcount_class_get_balanced [OF heap_AB_get
        refcount_class_get_balanced [OF heap_A_get refcount_get_balanced [OF heap_0_get]]])

lemma heap_AB_table: "rcs heap_AB 0 = Some \<lparr>ref = 0, table = [2, 1]\<rparr>"
  by (simp add: heap_AB_eq)

lemma fits_ops_AB: "fits heap_AB ops_AB"
  by (simp add: ops_AB_def heap_AB_eq eval_defs)

lemma target_ops_AB: "list_all (\<lambda>x. target x \<in> set (table \<lparr>ref = 0, table = [2, 1]\<rparr>)) ops_AB"
  by (simp add: ops_AB_def)

lemma heap_0_wf_keys: "wf_keys heap_0 0"
  by (rule refcount_get_wf_keys [OF heap_0_get])

lemma exec_Inc_AB: "exec (Inc 1) heap_AB = Inr heap_AB1"
  by (simp add: heap_AB_eq heap_AB1_def eval_defs fun_upd_twist)

lemma exec_Dec_AB1: "exec (Dec 1) heap_AB1 = Inr heap_AB"
  by (simp add: heap_AB_eq heap_AB1_def eval_defs fun_upd_twist)

lemma heap_AB1_get: "refcount_class_get 0 ''A'' heap_AB1 = Inr (1, heap_AB1)"
  by (simp add: heap_AB1_def refcount_class_get_def class_A_def class_B_def REFCOUNT_KEY_MAX_def
      NUL_def eval_nat_numeral)

lemma calls_ABA_eq: "calls 0 calls_ABA heap_0 = Inr ([1, 2, 1], heap_AB)"
  using heap_A_get heap_AB_get exec_Inc_AB heap_AB1_get exec_Dec_AB1
  by (simp add: calls_ABA_def)

lemma calls_ABA_returns: "counting_returns 0 calls_ABA heap_0"
  using heap_A_get heap_AB_get exec_Inc_AB heap_AB1_get exec_Dec_AB1
  by (simp add: calls_ABA_def)

lemma calls_ABA_keys: "lookup_keys calls_ABA = [''A'', ''B'', ''A'']"
  by (simp add: calls_ABA_def)

lemma key_XY_key_prefix: "key_prefix key_Y = key_prefix key_X"
  using key_XY_prefix by (simp add: key_prefix_def)

section \<open>Decrement and the imbalance guard\<close>

text \<open>
  On a class \<open>rcc\<close> with owner \<open>global c\<close>, \<^verbatim>\<open>refcount_dec\<close> first decrements the class counter
  by 1 (in the counter's 32-bit arithmetic). If the class counter then reads negative, it logs
  exactly one warning, the text of \<^verbatim>\<open>refcount_warn(rcc->key)\<close>, and the owner is left as it was.
  Otherwise \<^verbatim>\<open>BUG_ON\<close> fires when the global counter reads zero or less, and else the global
  counter is decremented by 1; there it read positive, so the new value is exactly one less.
\<close>

lemma refcount_dec_effect:
  assumes "classes h rcc = Some c" and "rcs h (global c) = Some r"
  shows "refcount_dec rcc h =
     (let h1 = h\<lparr>classes := (classes h)(rcc \<mapsto> c\<lparr>cref := atomic_dec (cref c)\<rparr>)\<rparr> in
      if atomic_read (atomic_dec (cref c)) < 0
      then Inr (h1\<lparr>klog := klog h @ [diagnostic (c\<lparr>cref := atomic_dec (cref c)\<rparr>)]\<rparr>)
      else if atomic_read (ref r) \<le> 0 then Inl BUG
      else Inr (h1\<lparr>rcs := (rcs h)(global c \<mapsto> r\<lparr>ref := atomic_dec (ref r)\<rparr>)\<rparr>))
   \<and> (0 < atomic_read (ref r) \<longrightarrow> atomic_read (atomic_dec (ref r)) = atomic_read (ref r) - 1)"
proof (intro conjI impI)
  show "refcount_dec rcc h =
     (let h1 = h\<lparr>classes := (classes h)(rcc \<mapsto> c\<lparr>cref := atomic_dec (cref c)\<rparr>)\<rparr> in
      if atomic_read (atomic_dec (cref c)) < 0
      then Inr (h1\<lparr>klog := klog h @ [diagnostic (c\<lparr>cref := atomic_dec (cref c)\<rparr>)]\<rparr>)
      else if atomic_read (ref r) \<le> 0 then Inl BUG
      else Inr (h1\<lparr>rcs := (rcs h)(global c \<mapsto> r\<lparr>ref := atomic_dec (ref r)\<rparr>)\<rparr>))"
    using assms by (simp add: op_defs)
next
  assume "0 < atomic_read (ref r)"
  then show "atomic_read (atomic_dec (ref r)) = atomic_read (ref r) - 1"
    by (simp add: atomic_read_def atomic_dec_def sint_dec)
qed

lemma refcount_dec_effect_example:
  "classes heap_A 1 = Some class_A \<and>
   rcs heap_A (global class_A) = Some \<lparr>ref = 0, table = [1]\<rparr> \<and>
   refcount_dec 1 heap_A =
     Inr (heap_A\<lparr>classes := (classes heap_A)(1 \<mapsto> class_A\<lparr>cref := - 1\<rparr>),
                 klog := [''BUG: refcount imbalance on key A !'']\<rparr>) \<and>
   classes heap_A1 1 = Some (class_A\<lparr>cref := 1\<rparr>) \<and>
   rcs heap_A1 (global (class_A\<lparr>cref := 1\<rparr>)) = Some \<lparr>ref = 1, table = [1]\<rparr> \<and>
   refcount_dec 1 heap_A1 =
     Inr (heap_A1\<lparr>classes := (classes heap_A1)(1 \<mapsto> class_A\<lparr>cref := 0\<rparr>),
                  rcs := (rcs heap_A1)(0 \<mapsto> \<lparr>ref = 0, table = [1]\<rparr>)\<rparr>)"
proof -
  note c = heap_A_class and r = heap_A_rc and c1 = heap_A1_class and r1 = heap_A1_rc
  from refcount_dec_effect [OF c r]
  have a: "refcount_dec 1 heap_A =
     Inr (heap_A\<lparr>classes := (classes heap_A)(1 \<mapsto> class_A\<lparr>cref := - 1\<rparr>),
                 klog := [''BUG: refcount imbalance on key A !'']\<rparr>)"
    by (simp add: atomic_dec_def atomic_read_def heap_A_klog class_A_cref diagnostic_A)
  from refcount_dec_effect [OF c1 r1]
  have b: "refcount_dec 1 heap_A1 =
     Inr (heap_A1\<lparr>classes := (classes heap_A1)(1 \<mapsto> class_A\<lparr>cref := 0\<rparr>),
                  rcs := (rcs heap_A1)(0 \<mapsto> \<lparr>ref = 0, table = [1]\<rparr>)\<rparr>)"
    by (simp add: atomic_dec_def atomic_read_def class_A_global)
  from a b c r c1 r1 show ?thesis by blast
qed

text \<open>
  Claim C1. The decrement of the class counter, the \<^verbatim>\<open>BUG_ON\<close> and the decrement of the global
  counter are as the claim says (\<open>refcount_dec_effect\<close>), and the warning of an imbalance names
  the key of the class when the key is shorter than 20 characters (\<open>diagnostic_short\<close>). For a
  key of 20 characters it does not: \<^verbatim>\<open>refcount_class_init\<close> leaves no NUL in \<^verbatim>\<open>key[]\<close>, the \<^verbatim>\<open>%s\<close>
  of \<^verbatim>\<open>refcount_warn\<close> runs on into the field \<^verbatim>\<open>ref\<close>, and the text logged for the class of
  \<open>key_20\<close>, decremented from 0, is the key followed by the four bytes \<^verbatim>\<open>0xFF\<close> of the counter.
\<close>

theorem refcount_dec_unterminated_key:
  "length key_20 = REFCOUNT_KEY_MAX \<and>
   refcount_class_get 0 key_20 heap_0 = Inr (1, heap_X) \<and>
   (case refcount_dec 1 heap_X of Inl e \<Rightarrow> Inl e | Inr h \<Rightarrow> Inr (klog h)) =
     Inr [''BUG: refcount imbalance on key '' @ key_20 @
          [CHR 0xFF, CHR 0xFF, CHR 0xFF, CHR 0xFF] @ '' !'']"
proof -
  have n: "atomic_read (atomic_dec (cref class_X)) < 0"
    by (simp add: class_X_def atomic_read_def atomic_dec_def)
  have d: "atomic_dec (cref class_X) = - 1" by (simp add: class_X_def atomic_dec_def)
  have k: "klog heap_X = []" by (simp add: heap_X_def)
  have l: "length key_20 = REFCOUNT_KEY_MAX"
    by (simp add: key_20_def REFCOUNT_KEY_MAX_def)
  from refcount_dec_imbalance [OF heap_X_class n] get_key_20 l show ?thesis
    by (simp add: d k diagnostic_X warning_text_def)
qed

text \<open>
  Claim C3. On a class whose owner is allocated, \<^verbatim>\<open>refcount_dec_and_test\<close> ends as
  \<^verbatim>\<open>refcount_dec\<close> does: with the same error, or with the same heap, and then it returns true
  if and only if the global counter reads 0 in that heap.
\<close>

theorem refcount_dec_and_test_spec:
  assumes "classes h rcc = Some c" and "rcs h (global c) = Some r"
  shows "refcount_dec_and_test rcc h =
           (case refcount_dec rcc h of
              Inl e \<Rightarrow> Inl e
            | Inr h' \<Rightarrow> Inr (refcount_read (global c) h' = Inr 0, h'))"
  using assms by (simp add: op_defs)

theorem refcount_dec_and_test_spec_witness:
  "classes heap_A1 1 = Some (class_A\<lparr>cref := 1\<rparr>) \<and>
   rcs heap_A1 (global (class_A\<lparr>cref := 1\<rparr>)) = Some \<lparr>ref = 1, table = [1]\<rparr> \<and>
   refcount_dec 1 heap_A1 = Inr heap_A \<and>
   refcount_dec_and_test 1 heap_A1 = Inr (True, heap_A)"
proof -
  note c = heap_A1_class and r = heap_A1_rc
  have z: "refcount_read 0 heap_A = Inr 0"
    by (simp add: refcount_read_def heap_A_eq atomic_read_def)
  from refcount_dec_and_test_spec [OF c r] heap_A1_dec z
  have "refcount_dec_and_test 1 heap_A1 = Inr (True, heap_A)"
    by (simp add: class_A_global)
  with c r heap_A1_dec show ?thesis by blast
qed

text \<open>
  Claim C9, as stated: with the global counter at 0 and the class counter at 0 or below,
  \<^verbatim>\<open>refcount_dec_and_test\<close> returns true. It fails for a class counter at \<^verbatim>\<open>INT_MIN\<close>: the
  decrement wraps to \<^verbatim>\<open>INT_MAX\<close>, no imbalance is seen, and \<^verbatim>\<open>BUG_ON\<close> fires on the global
  counter. The heap below is reached from \<open>heap_AB\<close> by four calls with deltas that are not
  negative; there the global counter reads 0 and the counter of class 1 reads \<^verbatim>\<open>INT_MIN\<close>.
\<close>

theorem imbalanced_dec_and_test_bug:
  "(case run_ops [Add 2147483647 1, Inc 1, Add 2147483647 2, Inc 2] heap_AB of
      Inl e \<Rightarrow> Inl e
    | Inr h \<Rightarrow>
        (case refcount_read 0 h of
           Inl e \<Rightarrow> Inl e
         | Inr g \<Rightarrow>
             (case refcount_class_read 1 h of
                Inl e \<Rightarrow> Inl e
              | Inr n \<Rightarrow> Inr (g, n, map_sum id fst (refcount_dec_and_test 1 h)))))
   = Inr (0, - 2147483648, Inl BUG)"
  by (simp add: heap_AB_eq op_defs atomic_add_def atomic_inc_def atomic_dec_def atomic_read_def
      class_A_def class_B_def)

text \<open>
  Claim C9, amended: with the global counter at 0 and the class counter at 0 or below, but not
  at \<^verbatim>\<open>INT_MIN\<close>, \<^verbatim>\<open>refcount_dec_and_test\<close> returns true; the class counter is decremented,
  one warning is logged and the global counter is not touched.
\<close>

theorem imbalanced_dec_and_test_true:
  assumes "classes h rcc = Some c" and "rcs h (global c) = Some r"
    and "atomic_read (ref r) = 0"
    and "atomic_read (cref c) \<le> 0" and "atomic_read (cref c) \<noteq> INT_MIN"
  shows "refcount_dec_and_test rcc h =
           Inr (True, h\<lparr>classes := (classes h)(rcc \<mapsto> c\<lparr>cref := atomic_dec (cref c)\<rparr>),
                         klog := klog h @ [diagnostic (c\<lparr>cref := atomic_dec (cref c)\<rparr>)]\<rparr>)"
proof -
  have "sint (cref c - 1) = sint (cref c) - 1"
    using assms(5) sint_bounds32 [of "cref c"]
    by (intro sint_dec) (simp add: atomic_read_def INT_MIN_def)
  then have neg: "atomic_read (atomic_dec (cref c)) < 0"
    using assms(4) by (simp add: atomic_read_def atomic_dec_def)
  show ?thesis
    using assms(1-3) neg
    by (simp add: dec_and_test_eq [OF assms(1,2)] refcount_dec_imbalance [OF assms(1) neg]
        refcount_read_def)
qed

theorem imbalanced_dec_and_test_true_witness:
  "classes heap_A 1 = Some class_A \<and>
   rcs heap_A (global class_A) = Some \<lparr>ref = 0, table = [1]\<rparr> \<and>
   atomic_read (ref \<lparr>ref = 0, table = [1]\<rparr>) = 0 \<and> atomic_read (cref class_A) \<le> 0 \<and>
   atomic_read (cref class_A) \<noteq> INT_MIN \<and>
   refcount_dec_and_test 1 heap_A =
     Inr (True, heap_A\<lparr>classes := (classes heap_A)(1 \<mapsto> class_A\<lparr>cref := - 1\<rparr>),
                       klog := [''BUG: refcount imbalance on key A !'']\<rparr>)"
proof -
  note c = heap_A_class and r = heap_A_rc
  have g: "atomic_read (ref \<lparr>ref = 0, table = [1]\<rparr>) = 0" by (simp add: atomic_read_def)
  have le: "atomic_read (cref class_A) \<le> 0" by (simp add: class_A_cref atomic_read_def)
  have ne: "atomic_read (cref class_A) \<noteq> INT_MIN"
    by (simp add: class_A_cref atomic_read_def INT_MIN_def)
  from imbalanced_dec_and_test_true [OF c r g le ne] c r g le ne show ?thesis
    by (simp add: atomic_dec_def class_A_cref heap_A_klog diagnostic_A)
qed

section \<open>Increment and add\<close>

text \<open>
  Claim C7. On a class whose owner is allocated, \<^verbatim>\<open>refcount_inc\<close> adds 1 to the class counter
  and 1 to the owner's global counter, \<^verbatim>\<open>refcount_add\<close> adds its delta \<open>n\<close> to both, for every
  \<^verbatim>\<open>int\<close> \<open>n\<close> (the additions are those of \<^verbatim>\<open>atomic_t\<close>: 32-bit, wrapping), and
  \<^verbatim>\<open>refcount_inc\<close> is \<^verbatim>\<open>refcount_add\<close> with delta 1.
\<close>

theorem refcount_inc_add_effect:
  assumes "classes h rcc = Some c" and "rcs h (global c) = Some r"
  shows "refcount_inc rcc h =
           Inr (h\<lparr>classes := (classes h)(rcc \<mapsto> c\<lparr>cref := cref c + 1\<rparr>),
                   rcs := (rcs h)(global c \<mapsto> r\<lparr>ref := ref r + 1\<rparr>)\<rparr>)
       \<and> refcount_add n rcc h =
           Inr (h\<lparr>classes := (classes h)(rcc \<mapsto> c\<lparr>cref := cref c + n\<rparr>),
                   rcs := (rcs h)(global c \<mapsto> r\<lparr>ref := ref r + n\<rparr>)\<rparr>)
       \<and> refcount_inc rcc h = refcount_add 1 rcc h"
  using assms by (simp add: refcount_inc_add refcount_add_eq atomic_add_def)

theorem refcount_inc_add_effect_witness:
  "classes heap_A 1 = Some class_A \<and>
   rcs heap_A (global class_A) = Some \<lparr>ref = 0, table = [1]\<rparr> \<and>
   refcount_inc 1 heap_A =
     Inr (heap_A\<lparr>classes := (classes heap_A)(1 \<mapsto> class_A\<lparr>cref := 1\<rparr>),
                 rcs := (rcs heap_A)(0 \<mapsto> \<lparr>ref = 1, table = [1]\<rparr>)\<rparr>) \<and>
   refcount_add 5 1 heap_A =
     Inr (heap_A\<lparr>classes := (classes heap_A)(1 \<mapsto> class_A\<lparr>cref := 5\<rparr>),
                 rcs := (rcs heap_A)(0 \<mapsto> \<lparr>ref = 5, table = [1]\<rparr>)\<rparr>)"
proof -
  note c = heap_A_class and r = heap_A_rc
  from refcount_inc_add_effect [OF c r, of 5] c r show ?thesis
    by (simp add: class_A_cref class_A_global)
qed

section \<open>Creation and class lookup\<close>

text \<open>
  Claim C8. \<^verbatim>\<open>refcount_get\<close> returns a \<^verbatim>\<open>refcount_t\<close> whose counter is 0 and whose collection
  is empty, so \<^verbatim>\<open>refcount_read\<close> returns 0 on it; \<^verbatim>\<open>refcount_class_get\<close> on it, with any key,
  allocates a class with counter 0 and owner \<open>rc\<close>, and that class is then the only one of
  the collection.
\<close>

theorem refcount_get_fresh:
  assumes "refcount_get h = (rc, h0)"
  shows "rcs h0 rc = Some \<lparr>ref = 0, table = []\<rparr>
       \<and> refcount_read rc h0 = Inr 0
       \<and> refcount_class_get rc k h0 =
           Inr (brk h0,
                h0\<lparr>brk := Suc (brk h0),
                   classes := (classes h0)(brk h0 \<mapsto>
                     \<lparr>key = strncpy k REFCOUNT_KEY_MAX, cref = 0, action = None, global = rc\<rparr>),
                   rcs := (rcs h0)(rc \<mapsto> \<lparr>ref = 0, table = [brk h0]\<rparr>)\<rparr>)"
proof -
  from assms have r: "rcs h0 rc = Some \<lparr>ref = 0, table = []\<rparr>"
    by (auto simp: refcount_get_def kzalloc_def)
  then show ?thesis
    by (simp add: refcount_read_def atomic_read_def refcount_class_get_def
        refcount_class_init_def kzalloc_def)
qed

theorem refcount_get_fresh_witness:
  "refcount_get empty_heap = (0, heap_0) \<and>
   rcs heap_0 0 = Some \<lparr>ref = 0, table = []\<rparr> \<and>
   refcount_read 0 heap_0 = Inr 0 \<and>
   refcount_class_get 0 ''A'' heap_0 = Inr (1, heap_A)"
  using refcount_get_fresh [OF heap_0_get, of "''A''"] heap_0_get heap_A_get
  by simp

text \<open>
  Claim C6. Only the first \<^verbatim>\<open>REFCOUNT_KEY_MAX\<close> = 20 characters of a key count. On a well-formed
  collection, \<^verbatim>\<open>refcount_class_get(rc, k)\<close> returns a class of the collection of \<open>rc\<close> whose key
  buffer holds the first 20 characters of \<open>k\<close>, padded with NUL to 20 bytes, and nothing more
  of \<open>k\<close>; a key that agrees with \<open>k\<close> on its first 20 characters resolves to that same class,
  in place of \<open>k\<close> and after it; and a key that differs from \<open>k\<close> within its first 20
  characters resolves to another class.
\<close>

theorem keys_significant_to_max:
  assumes "wf_keys h rc"
  shows "\<exists>rcc h1 c.
           refcount_class_get rc k h = Inr (rcc, h1) \<and> wf_keys h1 rc \<and>
           registered h1 rc k rcc \<and> classes h1 rcc = Some c \<and> global c = rc \<and>
           key c = take REFCOUNT_KEY_MAX (cstr k) @
                     replicate (REFCOUNT_KEY_MAX - length (cstr k)) NUL \<and>
           length (key c) = REFCOUNT_KEY_MAX \<and> cstr (key c) = key_prefix k \<and>
           (\<forall>k2. key_prefix k2 = key_prefix k \<longrightarrow>
              refcount_class_get rc k2 h = Inr (rcc, h1) \<and>
              refcount_class_get rc k2 h1 = Inr (rcc, h1)) \<and>
           (\<forall>k2 rcc2 h2. key_prefix k2 \<noteq> key_prefix k \<longrightarrow>
              refcount_class_get rc k2 h1 = Inr (rcc2, h2) \<longrightarrow> rcc2 \<noteq> rcc)"
proof -
  from refcount_class_get_wf_keys [OF assms, of k]
  obtain rcc h1 where g: "refcount_class_get rc k h = Inr (rcc, h1)"
    and w1: "wf_keys h1 rc" and reg: "registered h1 rc k rcc"
    by blast
  from registered_class [OF reg] obtain c where c: "classes h1 rcc = Some c"
    and o: "global c = rc" and kc: "key c = strncpy k REFCOUNT_KEY_MAX"
    by blast
  have same: "refcount_class_get rc k2 h = Inr (rcc, h1) \<and>
              refcount_class_get rc k2 h1 = Inr (rcc, h1)"
    if "key_prefix k2 = key_prefix k" for k2
  proof -
    have "refcount_class_get rc k2 h' = refcount_class_get rc k h'" for h'
      using refcount_class_get_cstr [of rc k h'] refcount_class_get_cstr [of rc k2 h'] that
      by (simp add: key_prefix_def)
    with g refcount_class_get_registered [OF w1 reg] show ?thesis by simp
  qed
  have other: "rcc2 \<noteq> rcc"
    if "key_prefix k2 \<noteq> key_prefix k" "refcount_class_get rc k2 h1 = Inr (rcc2, h2)"
    for k2 rcc2 h2
  proof -
    from refcount_class_get_wf_keys [OF w1, of k2] that(2)
    have w2: "wf_keys h2 rc" and reg2: "registered h2 rc k2 rcc2"
      and keep: "\<And>k' a. registered h1 rc k' a \<Longrightarrow> registered h2 rc k' a"
      by auto
    from registered_unique [OF w2 reg2 keep [OF reg]] that(1) show ?thesis by simp
  qed
  show ?thesis
  proof (intro exI conjI allI impI)
    show "refcount_class_get rc k h = Inr (rcc, h1)" by (rule g)
    show "wf_keys h1 rc" by (rule w1)
    show "registered h1 rc k rcc" by (rule reg)
    show "classes h1 rcc = Some c" by (rule c)
    show "global c = rc" by (rule o)
    show "key c = take REFCOUNT_KEY_MAX (cstr k) @
                     replicate (REFCOUNT_KEY_MAX - length (cstr k)) NUL"
      by (simp only: kc strncpy_eq)
    show "length (key c) = REFCOUNT_KEY_MAX" by (simp only: kc length_strncpy)
    show "cstr (key c) = key_prefix k" by (simp only: kc cstr_strncpy key_prefix_def)
    show "refcount_class_get rc k2 h = Inr (rcc, h1)" if "key_prefix k2 = key_prefix k" for k2
      using same [OF that] by simp
    show "refcount_class_get rc k2 h1 = Inr (rcc, h1)" if "key_prefix k2 = key_prefix k" for k2
      using same [OF that] by simp
    show "rcc2 \<noteq> rcc"
      if "key_prefix k2 \<noteq> key_prefix k" "refcount_class_get rc k2 h1 = Inr (rcc2, h2)"
      for k2 rcc2 h2
      by (rule other [OF that])
  qed
qed

theorem keys_significant_to_max_witness:
  "wf_keys heap_0 0 \<and> key_X \<noteq> key_Y \<and> key_prefix key_Y = key_prefix key_X \<and>
   refcount_class_get 0 key_X heap_0 = Inr (1, heap_X) \<and>
   refcount_class_get 0 key_Y heap_0 = Inr (1, heap_X) \<and>
   refcount_class_get 0 key_Y heap_X = Inr (1, heap_X) \<and>
   wf_keys heap_X 0 \<and> registered heap_X 0 key_X 1 \<and>
   map_option key (classes heap_X 1) = Some ''aaaaaaaaaaaaaaaaaaaa''"
proof -
  from keys_significant_to_max [OF heap_0_wf_keys, of key_X]
  obtain rcc h1 where "refcount_class_get 0 key_X heap_0 = Inr (rcc, h1)"
    and "wf_keys h1 0" and "registered h1 0 key_X rcc"
    and "\<forall>k2. key_prefix k2 = key_prefix key_X \<longrightarrow>
              refcount_class_get 0 k2 heap_0 = Inr (rcc, h1) \<and>
              refcount_class_get 0 k2 h1 = Inr (rcc, h1)"
    by blast
  then have "wf_keys heap_X 0" and "registered heap_X 0 key_X 1"
    and "refcount_class_get 0 key_Y heap_0 = Inr (1, heap_X) \<and>
         refcount_class_get 0 key_Y heap_X = Inr (1, heap_X)"
    using key_XY_key_prefix by (simp_all add: get_key_X)
  moreover have "map_option key (classes heap_X 1) = Some ''aaaaaaaaaaaaaaaaaaaa''"
    by (simp add: heap_X_def)
  ultimately show ?thesis
    using heap_0_wf_keys key_XY_distinct key_XY_key_prefix get_key_X by simp
qed

text \<open>
  Claim C5, as stated: two distinct keys give two distinct classes. It fails for \<open>key_X\<close> and
  \<open>key_Y\<close>, which differ in their 21st character only: the second call returns the class the
  first one created.
\<close>

theorem distinct_keys_same_class:
  "key_X \<noteq> key_Y \<and>
   (case refcount_class_get 0 key_X heap_0 of
      Inl e \<Rightarrow> Inl e
    | Inr (a1, h1) \<Rightarrow>
        (case refcount_class_get 0 key_Y h1 of
           Inl e \<Rightarrow> Inl e
         | Inr (a2, h2) \<Rightarrow> Inr (a1, a2))) = Inr (1, 1)"
  by (simp add: key_XY_distinct get_key_X get_key_Y)

text \<open>
  Claim C5, amended. Take a sequence of lookups on one \<^verbatim>\<open>refcount_t\<close>, with counting calls in
  between, from a well-formed collection. If its counting calls return, the sequence runs to
  its end, and two of its lookups return the same class if and only if their keys agree on
  their first 20 characters: the same key gives the same class every time, and two keys give
  two distinct classes exactly when they differ within their first 20 characters. The class a
  lookup returns is the class of its key in the collection: a class that was there before the
  sequence is the one returned, wherever it stands in the list, and the same lookup made
  after the sequence returns the same class and leaves the heap as it is.
\<close>

theorem class_identity:
  assumes "wf_keys h rc" and "counting_returns rc cs h"
  shows "\<exists>rccs h'.
           calls rc cs h = Inr (rccs, h') \<and> length rccs = length (lookup_keys cs) \<and>
           wf_keys h' rc \<and>
           (\<forall>i<length rccs. registered h' rc (lookup_keys cs ! i) (rccs ! i)) \<and>
           (\<forall>i<length rccs. \<forall>j<length rccs.
              rccs ! i = rccs ! j \<longleftrightarrow>
                key_prefix (lookup_keys cs ! i) = key_prefix (lookup_keys cs ! j)) \<and>
           (\<forall>i<length rccs. \<forall>a. registered h rc (lookup_keys cs ! i) a \<longrightarrow> rccs ! i = a) \<and>
           (\<forall>i<length rccs. refcount_class_get rc (lookup_keys cs ! i) h' = Inr (rccs ! i, h'))"
proof -
  from calls_registered [OF assms]
  obtain rccs h' where r: "calls rc cs h = Inr (rccs, h')" and w': "wf_keys h' rc"
    and all: "list_all2 (registered h' rc) (lookup_keys cs) rccs"
    and keep: "\<And>k a. registered h rc k a \<Longrightarrow> registered h' rc k a"
    by blast
  from all have len: "length rccs = length (lookup_keys cs)"
    by (simp add: list_all2_lengthD)
  have reg: "registered h' rc (lookup_keys cs ! i) (rccs ! i)" if "i < length rccs" for i
    using all that len by (simp add: list_all2_nthD)
  show ?thesis
  proof (intro exI conjI allI impI)
    show "calls rc cs h = Inr (rccs, h')" by (rule r)
    show "length rccs = length (lookup_keys cs)" by (rule len)
    show "wf_keys h' rc" by (rule w')
    show "registered h' rc (lookup_keys cs ! i) (rccs ! i)" if "i < length rccs" for i
      by (rule reg [OF that])
    show "rccs ! i = rccs ! j \<longleftrightarrow>
            key_prefix (lookup_keys cs ! i) = key_prefix (lookup_keys cs ! j)"
      if "i < length rccs" "j < length rccs" for i j
      by (rule registered_unique [OF w' reg [OF that(1)] reg [OF that(2)]])
    show "rccs ! i = a" if "i < length rccs" "registered h rc (lookup_keys cs ! i) a" for i a
      using registered_unique [OF w' reg [OF that(1)] keep [OF that(2)]] by simp
    show "refcount_class_get rc (lookup_keys cs ! i) h' = Inr (rccs ! i, h')"
      if "i < length rccs" for i
      by (rule refcount_class_get_registered [OF w' reg [OF that]])
  qed
qed

theorem class_identity_witness:
  "wf_keys heap_0 0 \<and> counting_returns 0 calls_ABA heap_0 \<and>
   lookup_keys calls_ABA = [''A'', ''B'', ''A''] \<and>
   calls 0 calls_ABA heap_0 = Inr ([1, 2, 1], heap_AB) \<and>
   wf_keys heap_AB 0 \<and> registered heap_AB 0 ''B'' 2 \<and>
   refcount_class_get 0 ''A'' heap_AB = Inr (1, heap_AB)"
proof -
  from class_identity [OF heap_0_wf_keys calls_ABA_returns]
  obtain rccs h' where c: "calls 0 calls_ABA heap_0 = Inr (rccs, h')" and w': "wf_keys h' 0"
    and r': "\<forall>i<length rccs. registered h' 0 (lookup_keys calls_ABA ! i) (rccs ! i)"
    and g': "\<forall>i<length rccs.
              refcount_class_get 0 (lookup_keys calls_ABA ! i) h' = Inr (rccs ! i, h')"
    by blast
  from c have e: "rccs = [1, 2, 1]" "h' = heap_AB" by (simp_all add: calls_ABA_eq)
  from w' have w: "wf_keys heap_AB 0" by (simp only: e)
  from r' have r: "\<forall>i<3. registered heap_AB 0 ([''A'', ''B'', ''A''] ! i) ([1, 2, 1] ! i)"
    by (simp add: e calls_ABA_keys)
  from g' have g: "\<forall>i<3. refcount_class_get 0 ([''A'', ''B'', ''A''] ! i) heap_AB =
      Inr ([1, 2, 1] ! i, heap_AB)"
    by (simp add: e calls_ABA_keys)
  from r [THEN spec, of 1] have "registered heap_AB 0 ''B'' 2" by simp
  moreover from g [THEN spec, of 2] have "refcount_class_get 0 ''A'' heap_AB = Inr (1, heap_AB)"
    by simp
  ultimately show ?thesis
    using w heap_0_wf_keys calls_ABA_returns calls_ABA_keys calls_ABA_eq by simp
qed

section \<open>The global counter along a sequence of calls\<close>

text \<open>
  Claim C2, as stated: from \<^verbatim>\<open>refcount_get\<close> on, the global counter never reads negative after
  increments, adds of deltas that are not negative, and decrements. It fails by wrap-around:
  on \<open>heap_A\<close> (\<^verbatim>\<open>refcount_get\<close>, then \<^verbatim>\<open>refcount_class_get\<close>), \<^verbatim>\<open>refcount_add(INT_MAX, rcc)\<close> and then
  \<^verbatim>\<open>refcount_inc(rcc)\<close> leave the global counter at \<^verbatim>\<open>INT_MIN\<close>.
\<close>

theorem global_negative_by_overflow:
  "(case run_ops [Add 2147483647 1, Inc 1] heap_A of
      Inl e \<Rightarrow> Inl e
    | Inr h \<Rightarrow> refcount_read 0 h) = Inr (- 2147483648)"
  by (simp add: heap_A_eq eval_defs)

text \<open>
  Claim C2, amended: a global counter that reads 0 or more (as after \<^verbatim>\<open>refcount_get\<close>) still
  reads 0 or more after any sequence of \<^verbatim>\<open>refcount_inc\<close>, \<^verbatim>\<open>refcount_add\<close> with a delta that is
  not negative, \<^verbatim>\<open>refcount_dec\<close> and \<^verbatim>\<open>refcount_dec_and_test\<close> calls, on any classes, provided
  no increment or add takes the counter of the owner beyond \<^verbatim>\<open>INT_MAX\<close> (\<open>fits\<close>). Every
  prefix of such a sequence is such a sequence (\<open>run_ops_append\<close>, \<open>fits_prefix\<close>), so this
  holds after every call of the run.
\<close>

theorem global_nonneg_preserved:
  assumes "run_ops xs h = Inr h'" and "fits h xs"
    and "rcs h rc = Some r" and "0 \<le> atomic_read (ref r)"
  shows "\<exists>g. refcount_read rc h' = Inr g \<and> 0 \<le> g"
  using run_nonneg [OF assms] by (auto simp: refcount_read_def)

theorem global_nonneg_preserved_witness:
  "run_ops ops_A heap_A = Inr heap_A1 \<and> fits heap_A ops_A \<and>
   rcs heap_A (global class_A) = Some \<lparr>ref = 0, table = [1]\<rparr> \<and>
   0 \<le> atomic_read (ref \<lparr>ref = 0, table = [1]\<rparr>) \<and>
   (\<exists>g. refcount_read (global class_A) heap_A1 = Inr g \<and> 0 \<le> g)"
proof -
  have z: "0 \<le> atomic_read (ref \<lparr>ref = 0, table = [1]\<rparr>)" by (simp add: atomic_read_def)
  from global_nonneg_preserved [OF run_ops_A fits_ops_A heap_A_rc z]
    run_ops_A fits_ops_A heap_A_rc z
  show ?thesis by blast
qed

text \<open>
  Claim C4, as stated: after a sequence of increments and decrements on the classes of one
  \<^verbatim>\<open>refcount_t\<close> with no imbalance, the global counter equals the net sum of the deltas. It
  fails by wrap-around: after \<open>ops_wrap\<close> on \<open>heap_AB\<close>, whose counters are all 0, each class
  counter is \<open>2 ^ 30\<close> and the net sum is \<open>2 ^ 31\<close>, but the global counter reads \<^verbatim>\<open>INT_MIN\<close>.
  A bound on the net sum alone does not repair the claim: one more \<^verbatim>\<open>refcount_dec\<close> brings the
  net sum to \<^verbatim>\<open>INT_MAX\<close> and hits \<^verbatim>\<open>BUG_ON\<close> (\<open>run_ops_wrap_then_dec\<close>).
\<close>

theorem global_wraps_past_net_delta:
  "no_imbalance heap_AB ops_wrap \<and>
   list_all (\<lambda>x. owner heap_AB (target x) = Some 0) ops_wrap \<and>
   net_delta ops_wrap = 2147483648 \<and>
   (case run_ops ops_wrap heap_AB of Inl e \<Rightarrow> Inl e | Inr h \<Rightarrow> refcount_read 0 h)
     = Inr (- 2147483648)"
  using run_ops_wrap owner_ops_wrap net_delta_ops_wrap by blast

text \<open>
  Claim C4, amended. Take a sequence of counting calls on the classes of one \<^verbatim>\<open>refcount_t\<close>
  \<open>rc\<close>, from a heap where the global counter of \<open>rc\<close> reads the sum of its class counters and
  none of them reads negative (as after \<^verbatim>\<open>refcount_get\<close> and any lookups). If no call leaves
  the counter of its class negative (no imbalance) and no increment or add takes the global
  counter beyond \<^verbatim>\<open>INT_MAX\<close> (\<open>fits\<close>), then the sequence runs to its end: no call faults or hits
  \<^verbatim>\<open>BUG_ON\<close>. After it the global counter reads its old value plus the net sum of the deltas,
  which is the net sum itself from a fresh \<^verbatim>\<open>refcount_t\<close>, and it still reads the sum of the
  class counters.
\<close>

theorem global_is_net_delta:
  assumes "balanced h rc" and "rcs h rc = Some r"
    and "list_all (\<lambda>x. target x \<in> set (table r)) xs" and "fits h xs" and "no_imbalance h xs"
  shows "\<exists>h'. run_ops xs h = Inr h' \<and>
           refcount_read rc h' = Inr (atomic_read (ref r) + net_delta xs) \<and> balanced h' rc"
proof -
  from run_balanced [OF assms]
  obtain h' r' where "run_ops xs h = Inr h'" "rcs h' rc = Some r'"
    "atomic_read (ref r') = atomic_read (ref r) + net_delta xs" "balanced h' rc"
    by blast
  then show ?thesis by (auto simp: refcount_read_def)
qed

theorem global_is_net_delta_witness:
  "balanced heap_AB 0 \<and> rcs heap_AB 0 = Some \<lparr>ref = 0, table = [2, 1]\<rparr> \<and>
   list_all (\<lambda>x. target x \<in> set (table \<lparr>ref = 0, table = [2, 1]\<rparr>)) ops_AB \<and>
   fits heap_AB ops_AB \<and> no_imbalance heap_AB ops_AB \<and> net_delta ops_AB = 1 \<and>
   run_ops ops_AB heap_AB = Inr heap_AB1 \<and> refcount_read 0 heap_AB1 = Inr 1 \<and>
   balanced heap_AB1 0"
proof -
  from global_is_net_delta [OF heap_AB_balanced heap_AB_table target_ops_AB fits_ops_AB
      no_imbalance_ops_AB]
  obtain h' where "run_ops ops_AB heap_AB = Inr h'"
    and "refcount_read 0 h' = Inr (atomic_read (ref \<lparr>ref = 0, table = [2, 1]\<rparr>) + net_delta ops_AB)"
    and "balanced h' 0"
    by blast
  with run_ops_AB have "refcount_read 0 heap_AB1 = Inr 1" "balanced heap_AB1 0"
    by (simp_all add: net_delta_ops_AB atomic_read_def)
  with heap_AB_balanced heap_AB_table target_ops_AB fits_ops_AB no_imbalance_ops_AB
    net_delta_ops_AB run_ops_AB
  show ?thesis by simp
qed

section \<open>Frame\<close>

text \<open>
  Claim C10. A counting call on \<open>rcc\<close> that returns allocates and frees nothing, leaves every
  collection of classes as it is, touches no class but \<open>rcc\<close> and no \<^verbatim>\<open>refcount_t\<close> but the
  owner of \<open>rcc\<close>, and leaves the key, the action and the owner of \<open>rcc\<close> as they are.
\<close>

theorem counting_frame:
  "(refcount_inc rcc h = Inr h1 \<longrightarrow> frame rcc h h1) \<and>
   (refcount_add n rcc h = Inr h1 \<longrightarrow> frame rcc h h1) \<and>
   (refcount_dec rcc h = Inr h1 \<longrightarrow> frame rcc h h1) \<and>
   (refcount_dec_and_test rcc h = Inr (b, h1) \<longrightarrow> frame rcc h h1)"
  using frame_add [of 1 rcc h h1] frame_add [of n rcc h h1] frame_dec [of rcc h h1]
    refcount_dec_and_test_dec [of rcc h b h1]
  by (auto simp: refcount_inc_add)

theorem counting_frame_witness:
  "refcount_inc 1 heap_A =
     Inr (heap_A\<lparr>classes := (classes heap_A)(1 \<mapsto> class_A\<lparr>cref := 1\<rparr>),
                 rcs := (rcs heap_A)(0 \<mapsto> \<lparr>ref = 1, table = [1]\<rparr>)\<rparr>) \<and>
   frame 1 heap_A
     (heap_A\<lparr>classes := (classes heap_A)(1 \<mapsto> class_A\<lparr>cref := 1\<rparr>),
             rcs := (rcs heap_A)(0 \<mapsto> \<lparr>ref = 1, table = [1]\<rparr>)\<rparr>)"
proof -
  have i: "refcount_inc 1 heap_A =
     Inr (heap_A\<lparr>classes := (classes heap_A)(1 \<mapsto> class_A\<lparr>cref := 1\<rparr>),
                 rcs := (rcs heap_A)(0 \<mapsto> \<lparr>ref = 1, table = [1]\<rparr>)\<rparr>)"
    using refcount_add_eq [OF heap_A_class heap_A_rc, of 1]
    by (simp add: refcount_inc_add atomic_add_def class_A_cref class_A_global)
  from counting_frame [of 1 heap_A _ 0 False] i show ?thesis by blast
qed

section \<open>Destruction\<close>

text \<open>
  \<^verbatim>\<open>refcount_destroy\<close> frees the classes of the collection and the \<^verbatim>\<open>refcount_t\<close>: on a
  well-formed collection it returns, and every later call on \<open>rc\<close> or on one of its classes
  dereferences a freed object.
\<close>

lemma refcount_destroy_frees:
  assumes "refcount_destroy rc h = Inr h'" and "rcs h rc = Some r" and "rcc \<in> set (table r)"
  shows "rcs h' rc = None \<and> classes h' rcc = None"
  using assms by (auto simp: refcount_destroy_def split: if_splits)

lemma use_after_destroy:
  assumes "refcount_destroy rc h = Inr h'" and "rcs h rc = Some r" and "rcc \<in> set (table r)"
  shows "refcount_inc rcc h' = Inl Fault \<and> refcount_add n rcc h' = Inl Fault \<and>
         refcount_dec rcc h' = Inl Fault \<and> refcount_dec_and_test rcc h' = Inl Fault \<and>
         refcount_class_read rcc h' = Inl Fault \<and> refcount_read rc h' = Inl Fault"
proof -
  from refcount_destroy_frees [OF assms] have "rcs h' rc = None" "classes h' rcc = None"
    by simp_all
  then show ?thesis by (simp add: op_defs)
qed

lemma refcount_destroy_wf:
  assumes "wf_table h rc"
  shows "\<exists>h'. refcount_destroy rc h = Inr h'"
proof -
  from assms obtain r where r: "rcs h rc = Some r"
    by (auto simp: wf_table_def split: option.splits)
  from wf_table_allocated [OF assms r] have "\<forall>rcc \<in> set (table r). classes h rcc \<noteq> None"
    by (simp add: list_all_iff)
  with r show ?thesis by (auto simp: refcount_destroy_def)
qed

section \<open>The scenarios of the specification\<close>

text \<open>
  Three increments and three decrements on one class bring both counters to 3 and back to 0;
  a fourth decrement, by \<^verbatim>\<open>refcount_dec_and_test\<close>, logs the imbalance and leaves the global
  counter at 0. With two classes, the second of two decrements on a class incremented once
  is logged, and only the first is applied to the global counter.
\<close>

lemma scenario_round_trip:
  "(case run_ops [Inc 1, Inc 1, Inc 1] heap_A of
      Inl e \<Rightarrow> Inl e
    | Inr h3 \<Rightarrow>
        (case run_ops [Dec 1, Dec 1, Dec 1] h3 of
           Inl e \<Rightarrow> Inl e
         | Inr h0 \<Rightarrow>
             (case refcount_dec_and_test 1 h0 of
                Inl e \<Rightarrow> Inl e
              | Inr (b, h') \<Rightarrow>
                  Inr (refcount_read 0 h3, refcount_class_read 1 h3, refcount_read 0 h0,
                       b, klog h', refcount_read 0 h'))))
   = Inr (Inr 3, Inr 3, Inr 0, True, [''BUG: refcount imbalance on key A !''], Inr 0)"
  by (simp add: heap_A_eq eval_defs diagnostic_A_rec)

lemma scenario_two_classes:
  "(case run_ops [Inc 1, Inc 1, Inc 2] heap_AB of
      Inl e \<Rightarrow> Inl e
    | Inr h3 \<Rightarrow>
        (case run_ops [Dec 2, Dec 2] h3 of
           Inl e \<Rightarrow> Inl e
         | Inr h' \<Rightarrow>
             Inr (refcount_read 0 h3, refcount_class_read 2 h', klog h', refcount_read 0 h')))
   = Inr (Inr 3, Inr (- 1), [''BUG: refcount imbalance on key B !''], Inr 2)"
  by (simp add: heap_AB_eq eval_defs diagnostic_B_rec)

end
